theory Spec2Isabelle
  imports Main "HOL-Library.Word" "HOL-Library.Monad_Syntax"
begin

unbundle bit_operations_syntax

section \<open>The subset bitset of \<^verbatim>\<open>dynkin.c\<close>\<close>

text \<open>
  The C program fixes the capacity at compile time: \<^verbatim>\<open>MAX_N = 7\<close>,
  \<^verbatim>\<open>MAX_SUBSETS = 1 << MAX_N\<close> subsets, stored in
  \<^verbatim>\<open>BITSET_WORDS = MAX_SUBSETS / 64\<close> words of 64 bits.
  Subset indices are \<^verbatim>\<open>uint32_t\<close>, counts are \<^verbatim>\<open>size_t\<close>
  (64 bits on the LP64 targets the program is compiled for).
\<close>

type_synonym uint32_t = "32 word"
type_synonym uint64_t = "64 word"
type_synonym size_t = "64 word"

definition MAX_N :: nat where
  "MAX_N = 7"

definition MAX_SUBSETS :: nat where
  "MAX_SUBSETS = 2 ^ MAX_N"

definition BITSET_WORDS :: nat where
  "BITSET_WORDS = MAX_SUBSETS div 64"

record Bitset =
  bits :: "uint64_t list"

text \<open>
  The array member \<^verbatim>\<open>bits\<close> has exactly \<^verbatim>\<open>BITSET_WORDS\<close> entries; a value of the
  C type always satisfies \<open>bs_wf\<close>.
\<close>

definition bs_wf :: "Bitset \<Rightarrow> bool" where
  "bs_wf bs \<longleftrightarrow> length (bits bs) = BITSET_WORDS"

text \<open>
  An access outside an array is undefined behaviour in C.  The model makes it a value:
  every operation that indexes an array returns \<open>None\<close> when the index is outside it.
\<close>

definition bs_clear :: "Bitset" where
  "bs_clear = \<lparr>bits = replicate BITSET_WORDS 0\<rparr>"

definition bs_copy :: "Bitset \<Rightarrow> Bitset" where
  "bs_copy src = \<lparr>bits = bits src\<rparr>"

definition bs_set :: "Bitset \<Rightarrow> uint32_t \<Rightarrow> Bitset option" where
  "bs_set bs idx =
     (let w = unat (drop_bit 6 idx) in
      if w < length (bits bs)
      then Some (bs\<lparr>bits := (bits bs)[w := (bits bs ! w) OR push_bit (unat (idx AND 63)) 1]\<rparr>)
      else None)"

definition bs_get :: "Bitset \<Rightarrow> uint32_t \<Rightarrow> bool option" where
  "bs_get bs idx =
     (let w = unat (drop_bit 6 idx) in
      if w < length (bits bs)
      then Some (drop_bit (unat (idx AND 63)) (bits bs ! w) AND 1 \<noteq> 0)
      else None)"

section \<open>Closure extension\<close>

text \<open>
  The work queue \<^verbatim>\<open>queue[MAX_SUBSETS]\<close> is written at \<^verbatim>\<open>qe\<close> and read at \<^verbatim>\<open>qs\<close>.
  The model keeps the entries written so far, \<^verbatim>\<open>queue[0..qe)\<close>, as a list, so that
  \<^verbatim>\<open>qe\<close> is its length; a write at \<^verbatim>\<open>qe \<ge> MAX_SUBSETS\<close> is out of bounds.
\<close>

definition enqueue :: "uint32_t list \<Rightarrow> uint32_t \<Rightarrow> uint32_t list option" where
  "enqueue queue v = (if length queue < MAX_SUBSETS then Some (queue @ [v]) else None)"

text \<open>
  The block that occurs twice in \<^verbatim>\<open>extend_closure\<close> (for the complement and for a
  disjoint union):
  \<^verbatim>\<open>if (!bs_get(closure, z)) { if (bs_get(excluded, z)) return 0;
       bs_set(closure, z); queue[qe++] = z; }\<close>
  The Boolean of the result is \<open>False\<close> when the function returns 0 at this point.
\<close>

definition add_subset ::
  "Bitset \<Rightarrow> uint32_t \<Rightarrow> Bitset \<times> uint32_t list \<Rightarrow> (bool \<times> Bitset \<times> uint32_t list) option" where
  "add_subset excluded z st =
     (case st of (closure, queue) \<Rightarrow>
      do {
        present \<leftarrow> bs_get closure z;
        if present then Some (True, closure, queue)
        else do {
          out \<leftarrow> bs_get excluded z;
          if out then Some (False, closure, queue)
          else do {
            closure' \<leftarrow> bs_set closure z;
            queue' \<leftarrow> enqueue queue z;
            Some (True, closure', queue')
          }
        }
      })"

text \<open>\<^verbatim>\<open>__builtin_ctzll\<close>: the number of trailing zero bits of a 64-bit word.\<close>

definition ctzll :: "uint64_t \<Rightarrow> nat" where
  "ctzll word = length (takeWhile (\<lambda>i. \<not> bit word i) [0..<64])"

lemma and_pred_less:
  fixes word :: uint64_t
  assumes "word \<noteq> 0"
  shows "unat (word AND (word - 1)) < unat word"
proof -
  have "word AND (word - 1) \<le> word - 1"
    by (rule word_and_le1)
  moreover have "word - 1 < word"
    using assms by (simp add: word_less_nat_alt unat_minus_one unat_gt_0)
  ultimately show ?thesis
    by (simp add: word_less_nat_alt word_le_nat_alt)
qed

text \<open>
  The loop \<^verbatim>\<open>while (word) { bit = ctz(word); word &= word - 1; ... }\<close> over the set
  bits of the snapshot \<^verbatim>\<open>word\<close> of \<^verbatim>\<open>closure->bits[w]\<close>.
\<close>

function scan_word ::
  "Bitset \<Rightarrow> uint32_t \<Rightarrow> nat \<Rightarrow> uint64_t \<Rightarrow> Bitset \<times> uint32_t list
     \<Rightarrow> (bool \<times> Bitset \<times> uint32_t list) option" where
  "scan_word excluded x w word st =
     (if word \<noteq> 0 then
        let bit = (of_nat (ctzll word) :: uint32_t);
            word' = word AND (word - 1);
            y = push_bit 6 (of_nat w) + bit
        in if x AND y = 0 then
             (case add_subset excluded (x OR y) st of
                None \<Rightarrow> None
              | Some (False, st') \<Rightarrow> Some (False, st')
              | Some (True, st') \<Rightarrow> scan_word excluded x w word' st')
           else scan_word excluded x w word' st
      else Some (True, st))"
  by pat_completeness auto
termination
  by (relation "measure (\<lambda>(excluded, x, w, word, st). unat word)")
     (auto simp: and_pred_less)

text \<open>The loop \<^verbatim>\<open>for (int w = 0; w < BITSET_WORDS; ++w)\<close>.\<close>

function scan_words ::
  "Bitset \<Rightarrow> uint32_t \<Rightarrow> nat \<Rightarrow> Bitset \<times> uint32_t list
     \<Rightarrow> (bool \<times> Bitset \<times> uint32_t list) option" where
  "scan_words excluded x w st =
     (if w < BITSET_WORDS then
        if w < length (bits (fst st)) then
          (case scan_word excluded x w (bits (fst st) ! w) st of
             None \<Rightarrow> None
           | Some (False, st') \<Rightarrow> Some (False, st')
           | Some (True, st') \<Rightarrow> scan_words excluded x (w + 1) st')
        else None
      else Some (True, st))"
  by pat_completeness auto
termination
  by (relation "measure (\<lambda>(excluded, x, w, st). BITSET_WORDS - w)") auto


declare scan_word.simps [simp del]
declare scan_words.simps [simp del]

lemma add_subset_capacity:
  assumes "add_subset excluded z (closure, queue) = Some (b, closure', queue')"
  shows "max MAX_SUBSETS (length queue') = max MAX_SUBSETS (length queue)"
  using assms
  by (auto simp: add_subset_def enqueue_def split: bind_splits if_splits)

lemma scan_word_capacity:
  "scan_word excluded x w word st = Some (b, st')
   \<Longrightarrow> max MAX_SUBSETS (length (snd st')) = max MAX_SUBSETS (length (snd st))"
proof (induction excluded x w word st rule: scan_word.induct)
  case (1 excluded x w word st)
  show ?case
  proof (cases "word = 0")
    case True
    with "1.prems" show ?thesis
      by (simp add: scan_word.simps)
  next
    case False
    note nz = this
    let ?y = "push_bit 6 (of_nat w) + (of_nat (ctzll word) :: uint32_t)"
    show ?thesis
    proof (cases "x AND ?y = 0")
      case False
      with nz "1.prems" "1.IH"(2) show ?thesis
        by (simp add: scan_word.simps Let_def)
    next
      case True
      show ?thesis
      proof (cases "add_subset excluded (x OR ?y) st")
        case None
        with nz True "1.prems" show ?thesis
          by (simp add: scan_word.simps Let_def)
      next
        case (Some r)
        obtain c cl q where r: "r = (c, cl, q)"
          by (cases r) auto
        have cap: "max MAX_SUBSETS (length q) = max MAX_SUBSETS (length (snd st))"
          using Some r add_subset_capacity [of excluded "x OR ?y" "fst st" "snd st" c cl q]
          by simp
        show ?thesis
        proof (cases c)
          case False
          with nz True Some r "1.prems" cap show ?thesis
            by (auto simp: scan_word.simps Let_def)
        next
          case True
          note c = this
          have "scan_word excluded x w (word AND (word - 1)) (cl, q) = Some (b, st')"
            using nz \<open>x AND ?y = 0\<close> Some r c "1.prems"
            by (simp add: scan_word.simps [of excluded x w word] Let_def)
          then have "max MAX_SUBSETS (length (snd st')) = max MAX_SUBSETS (length (snd (cl, q)))"
            using "1.IH"(1) [OF nz refl refl refl \<open>x AND ?y = 0\<close>, of "(c, cl, q)" c "(cl, q)"]
              Some r c
            by simp
          with cap show ?thesis
            by simp
        qed
      qed
    qed
  qed
qed

lemma scan_words_capacity:
  "scan_words excluded x w st = Some (b, st')
   \<Longrightarrow> max MAX_SUBSETS (length (snd st')) = max MAX_SUBSETS (length (snd st))"
proof (induction excluded x w st rule: scan_words.induct)
  case (1 excluded x w st)
  show ?case
  proof (cases "w < BITSET_WORDS \<and> w < length (bits (fst st))")
    case False
    with "1.prems" show ?thesis
      by (auto simp: scan_words.simps [of excluded x w st] split: if_splits)
  next
    case True
    then obtain c st1 where
      sw: "scan_word excluded x w (bits (fst st) ! w) st = Some (c, st1)"
      using "1.prems"
      by (cases "scan_word excluded x w (bits (fst st) ! w) st")
        (auto simp: scan_words.simps [of excluded x w st])
    note cap = scan_word_capacity [OF sw]
    show ?thesis
    proof (cases c)
      case False
      with True sw "1.prems" cap show ?thesis
        by (auto simp: scan_words.simps [of excluded x w st])
    next
      case c: True
      have "scan_words excluded x (w + 1) st1 = Some (b, st')"
        using True sw c "1.prems" by (simp add: scan_words.simps [of excluded x w st])
      then have "max MAX_SUBSETS (length (snd st')) = max MAX_SUBSETS (length (snd st1))"
        using "1.IH" [of "(c, st1)" c st1] True sw c by simp
      with cap show ?thesis
        by simp
    qed
  qed
qed

text \<open>
  The loop \<^verbatim>\<open>while (qs < qe)\<close>: take \<^verbatim>\<open>x = queue[qs++]\<close>, add its complement
  \<^verbatim>\<open>omega ^ x\<close>, then scan the closure for sets disjoint from \<^verbatim>\<open>x\<close>.
\<close>

function ec_while ::
  "uint32_t \<Rightarrow> Bitset \<Rightarrow> nat \<Rightarrow> Bitset \<times> uint32_t list
     \<Rightarrow> (bool \<times> Bitset \<times> uint32_t list) option" where
  "ec_while omega excluded qs st =
     (if qs < length (snd st) then
        let x = snd st ! qs;
            comp = omega XOR x
        in (case add_subset excluded comp st of
              None \<Rightarrow> None
            | Some (False, st') \<Rightarrow> Some (False, st')
            | Some (True, st') \<Rightarrow>
                (case scan_words excluded x 0 st' of
                   None \<Rightarrow> None
                 | Some (False, st'') \<Rightarrow> Some (False, st'')
                 | Some (True, st'') \<Rightarrow> ec_while omega excluded (qs + 1) st''))
      else Some (True, st))"
  by pat_completeness auto
termination
proof (relation "measure (\<lambda>(omega, excluded, qs, st). max MAX_SUBSETS (length (snd st)) - qs)",
    goal_cases)
  case 1
  show ?case by simp
next
  case (2 omega excluded qs st x comp r b st' r' b' st'')
  have "max MAX_SUBSETS (length (snd st')) = max MAX_SUBSETS (length (snd st))"
    using 2 add_subset_capacity [of excluded comp "fst st" "snd st" True "fst st'" "snd st'"]
    by simp
  moreover have "max MAX_SUBSETS (length (snd st'')) = max MAX_SUBSETS (length (snd st'))"
    using 2 scan_words_capacity [of excluded x 0 st' True st''] by simp
  ultimately show ?case
    using 2 by simp
qed

declare ec_while.simps [simp del]

text \<open>
  \<^verbatim>\<open>extend_closure\<close> returns 1 on success and 0 on contradiction, and leaves the closure
  built so far in its out-parameter.  The model returns the flag with that closure.
\<close>

definition extend_closure ::
  "uint32_t \<Rightarrow> Bitset \<Rightarrow> uint32_t \<Rightarrow> Bitset \<Rightarrow> (bool \<times> Bitset) option" where
  "extend_closure omega included extension excluded =
     do {
       closure \<leftarrow> bs_set (bs_copy included) extension;
       queue \<leftarrow> enqueue [] extension;
       r \<leftarrow> ec_while omega excluded 0 (closure, queue);
       Some (fst r, fst (snd r))
     }"

section \<open>The backtracking enumerator\<close>

lemma unat_succ:
  fixes m l :: uint32_t
  assumes "m < l"
  shows "unat (m + 1) = Suc (unat m)"
proof -
  from assms have "unat m < unat l"
    by (simp add: word_less_nat_alt)
  moreover have "unat l < 2 ^ 32"
    using unsigned_less [of l, where 'a = nat] by simp
  ultimately have "unat m + unat (1 :: uint32_t) < 2 ^ LENGTH(32)"
    by simp
  then have "unat (m + 1) = unat m + unat (1 :: uint32_t)"
    by (simp only: unat_add_lem)
  then show ?thesis
    by simp
qed

text \<open>
  \<^verbatim>\<open>inner\<close> is the loop \<^verbatim>\<open>for (m = lb; m < limit; ++m)\<close> with the running
  \<^verbatim>\<open>count\<close>; \<open>inner_for\<close> is that loop from a given \<^verbatim>\<open>m\<close>, and the recursive call
  of \<^verbatim>\<open>inner\<close> is \<open>inner_for\<close> started with count 1.  The test
  \<^verbatim>\<open>bs_get(included, m) || bs_get(excluded, m)\<close> evaluates its second operand only
  when the first is 0.  The loop writes to the caller's \<^verbatim>\<open>excluded\<close>; every caller
  hands in a private copy that it does not read again, so only the count is returned.
\<close>

function inner_for ::
  "uint32_t \<Rightarrow> uint32_t \<Rightarrow> Bitset \<Rightarrow> Bitset \<Rightarrow> size_t \<Rightarrow> size_t option" where
  "inner_for omega m included excluded count =
     (if m < drop_bit 1 (omega + 1) then
        do {
          is_in \<leftarrow> bs_get included m;
          decided \<leftarrow> (if is_in then Some True else bs_get excluded m);
          if decided then inner_for omega (m + 1) included excluded count
          else do {
            r \<leftarrow> extend_closure omega included m excluded;
            count' \<leftarrow>
              (if fst r then
                 do {
                   sub \<leftarrow> inner_for omega (m + 1) (bs_copy (snd r)) (bs_copy excluded) 1;
                   Some (count + sub)
                 }
               else Some count);
            excluded' \<leftarrow> bs_set excluded m;
            excluded'' \<leftarrow> bs_set excluded' (omega XOR m);
            inner_for omega (m + 1) included excluded'' count'
          }
        }
      else Some count)"
  by pat_completeness auto

definition inner_measure :: "uint32_t \<times> uint32_t \<times> Bitset \<times> Bitset \<times> size_t \<Rightarrow> nat" where
  "inner_measure = (\<lambda>(omega, m, included, excluded, count).
     unat (drop_bit 1 (omega + 1) :: uint32_t) - unat m)"

lemma inner_for_rel_decreases:
  assumes "inner_for_rel callee caller"
  shows "inner_measure callee < inner_measure caller"
  using assms
  by (cases rule: inner_for_rel.cases)
    (auto simp: inner_measure_def unat_succ word_less_nat_alt)

termination inner_for
  by (relation "measure inner_measure")
    (auto simp: inner_measure_def unat_succ word_less_nat_alt)

declare inner_for.simps [simp del]

definition inner :: "uint32_t \<Rightarrow> uint32_t \<Rightarrow> Bitset \<Rightarrow> Bitset \<Rightarrow> size_t option" where
  "inner omega lb included excluded = inner_for omega lb included excluded 1"

section \<open>The driver\<close>

text \<open>
  \<^verbatim>\<open>printf("%u %zu\n", n, total)\<close>: both numbers in decimal, a space between them and a
  newline after them.
\<close>

fun dec :: "nat \<Rightarrow> string" where
  "dec n = (if n < 10 then [''0123456789'' ! n]
            else dec (n div 10) @ [''0123456789'' ! (n mod 10)])"

declare dec.simps [simp del]

definition print_line :: "uint32_t \<Rightarrow> size_t \<Rightarrow> string" where
  "print_line n tot = dec (unat n) @ '' '' @ dec (unat tot) @ [CHR 0x0A]"

text \<open>Reading and writing an element of the array \<^verbatim>\<open>Bitset root_excluded[limit]\<close>.\<close>

definition load :: "Bitset list \<Rightarrow> uint32_t \<Rightarrow> Bitset option" where
  "load arr i = (if unat i < length arr then Some (arr ! unat i) else None)"

definition store :: "Bitset list \<Rightarrow> uint32_t \<Rightarrow> Bitset \<Rightarrow> Bitset list option" where
  "store arr i v = (if unat i < length arr then Some (arr[unat i := v]) else None)"

text \<open>
  The serial loop that fills \<^verbatim>\<open>root_excluded[m]\<close> from \<^verbatim>\<open>root_excluded[m - 1]\<close>
  for \<^verbatim>\<open>m = 1, ..., limit - 1\<close>.
\<close>

function fill_root_excluded ::
  "uint32_t \<Rightarrow> uint32_t \<Rightarrow> uint32_t \<Rightarrow> Bitset list \<Rightarrow> Bitset list option" where
  "fill_root_excluded omega limit m arr =
     (if m < limit then
        do {
          prev \<leftarrow> load arr (m - 1);
          e \<leftarrow> bs_set (bs_copy prev) m;
          e' \<leftarrow> bs_set e (omega XOR m);
          arr' \<leftarrow> store arr m e';
          fill_root_excluded omega limit (m + 1) arr'
        }
      else Some arr)"
  by pat_completeness auto
termination
  by (relation "measure (\<lambda>(omega, limit, m, arr). unat limit - unat m)")
    (auto simp: unat_succ word_less_nat_alt)

declare fill_root_excluded.simps [simp del]

text \<open>
  The array is a variable-length local of \<^verbatim>\<open>limit\<close> elements.  Its elements are
  written before they are read; the model starts it with cleared bitsets.
\<close>

definition root_excluded :: "uint32_t \<Rightarrow> uint32_t \<Rightarrow> Bitset list option" where
  "root_excluded omega limit =
     do {
       arr \<leftarrow> store (replicate (unat limit) bs_clear) 0 bs_clear;
       fill_root_excluded omega limit 1 arr
     }"

text \<open>
  The top-level loop \<^verbatim>\<open>for (m = 1; m < limit; ++m)\<close> under
  \<^verbatim>\<open>#pragma omp parallel for reduction(+ : total) firstprivate(included)\<close>.
  An iteration reads its own copy of \<^verbatim>\<open>included\<close> and the read-only array, and adds
  to \<^verbatim>\<open>total\<close> (\<open>tot\<close> below); the reduction is a sum of 64-bit words, which does not depend on the
  order of the iterations, so the model runs them in increasing order of \<^verbatim>\<open>m\<close>.
\<close>

function driver_for ::
  "uint32_t \<Rightarrow> uint32_t \<Rightarrow> uint32_t \<Rightarrow> Bitset \<Rightarrow> Bitset list \<Rightarrow> size_t \<Rightarrow> size_t option" where
  "driver_for omega limit m included arr tot =
     (if m < limit then
        do {
          ex_here \<leftarrow> load arr (m - 1);
          is_in \<leftarrow> bs_get included m;
          decided \<leftarrow> (if is_in then Some True else bs_get ex_here m);
          if decided then driver_for omega limit (m + 1) included arr tot
          else do {
            r \<leftarrow> extend_closure omega included m ex_here;
            if fst r then
              do {
                e \<leftarrow> bs_set (bs_copy ex_here) m;
                new_exc \<leftarrow> bs_set e (omega XOR m);
                sub \<leftarrow> inner omega (m + 1) (snd r) new_exc;
                driver_for omega limit (m + 1) included arr (tot + sub)
              }
            else driver_for omega limit (m + 1) included arr tot
          }
        }
      else Some tot)"
  by pat_completeness auto
termination
  by (relation "measure (\<lambda>(omega, limit, m, included, arr, tot). unat limit - unat m)")
    (auto simp: unat_succ word_less_nat_alt)

declare driver_for.simps [simp del]

text \<open>The base family \<open>{\<emptyset>, \<Omega>}\<close> of the driver.\<close>

definition base_included :: "uint32_t \<Rightarrow> Bitset option" where
  "base_included omega =
     do {
       included \<leftarrow> bs_set bs_clear 0;
       bs_set included omega
     }"

text \<open>The total that the driver prints for one \<^verbatim>\<open>omega\<close> with a non-zero \<^verbatim>\<open>limit\<close>.\<close>

definition driver_total :: "uint32_t \<Rightarrow> size_t option" where
  "driver_total omega =
     do {
       included \<leftarrow> base_included omega;
       arr \<leftarrow> root_excluded omega (drop_bit 1 (omega + 1));
       tot \<leftarrow> driver_for omega (drop_bit 1 (omega + 1)) 1 included arr 0;
       Some (tot + 1)
     }"

text \<open>One iteration of \<^verbatim>\<open>for (n = 0; n <= MAX_N; ++n)\<close> in \<^verbatim>\<open>main\<close>: the line it prints.\<close>

definition main_iteration :: "uint32_t \<Rightarrow> string option" where
  "main_iteration n =
     (let omega = (if n > 0 then push_bit (unat n) 1 - 1 else 0);
          limit = (drop_bit 1 (omega + 1) :: uint32_t)
      in if limit = 0 then
           do {
             included \<leftarrow> base_included omega;
             Some (print_line n 1)
           }
         else
           do {
             tot \<leftarrow> driver_total omega;
             Some (print_line n tot)
           })"

function main_for :: "uint32_t \<Rightarrow> string \<Rightarrow> string option" where
  "main_for n out =
     (if n \<le> of_nat MAX_N then
        do {
          line \<leftarrow> main_iteration n;
          main_for (n + 1) (out @ line)
        }
      else Some out)"
  by pat_completeness auto
termination
proof (relation "measure (\<lambda>(n, out). Suc MAX_N - unat n)", goal_cases)
  case 1
  show ?case by simp
next
  case (2 n out line)
  then have le: "unat n \<le> MAX_N"
    by (simp add: word_le_nat_alt MAX_N_def)
  then have "n < 8"
    by (simp add: word_less_nat_alt MAX_N_def)
  then have "unat (n + 1) = Suc (unat n)"
    by (rule unat_succ)
  with le show ?case
    by simp
qed

declare main_for.simps [simp del]

definition main :: "string option" where
  "main = main_for 0 []"

section \<open>The vocabulary of the specification\<close>

text \<open>The subsets that a bitset marks: the indices at which \<open>bs_get\<close> answers 1.\<close>

definition members :: "Bitset \<Rightarrow> uint32_t set" where
  "members bs = {i. bs_get bs i = Some True}"

text \<open>The positions of the set bits of a word, in increasing order.\<close>

definition set_bits :: "uint64_t \<Rightarrow> nat list" where
  "set_bits word = filter (bit word) [0..<64]"

text \<open>
  The scan of \<open>scan_word\<close> written over the list of the candidates \<open>y\<close>; the loop over
  a word is this scan over the word's set bits.
\<close>

fun scan_list ::
  "Bitset \<Rightarrow> uint32_t \<Rightarrow> uint32_t list \<Rightarrow> Bitset \<times> uint32_t list
     \<Rightarrow> (bool \<times> Bitset \<times> uint32_t list) option" where
  "scan_list excluded x [] st = Some (True, st)"
| "scan_list excluded x (y # ys) st =
     (if x AND y = 0 then
        (case add_subset excluded (x OR y) st of
           None \<Rightarrow> None
         | Some (False, st') \<Rightarrow> Some (False, st')
         | Some (True, st') \<Rightarrow> scan_list excluded x ys st')
      else scan_list excluded x ys st)"

text \<open>The subset indices held by word \<open>w\<close> of a bitset whose value is \<open>word\<close>.\<close>

definition word_members :: "nat \<Rightarrow> uint64_t \<Rightarrow> uint32_t list" where
  "word_members w word = map (\<lambda>i. push_bit 6 (of_nat w) + of_nat i) (set_bits word)"

text \<open>
  The states of the work loop that matter: the closure is a well-formed bitset, and the
  queue holds pairwise different members of it.
\<close>

definition good :: "Bitset \<times> uint32_t list \<Rightarrow> bool" where
  "good st \<longleftrightarrow> bs_wf (fst st) \<and> distinct (snd st) \<and> set (snd st) \<subseteq> members (fst st)"

text \<open>
  A later state of the work loop extends an earlier one: the closure has grown by the
  subsets that were appended to the queue.
\<close>

definition extends :: "Bitset \<times> uint32_t list \<Rightarrow> Bitset \<times> uint32_t list \<Rightarrow> bool" where
  "extends st s \<longleftrightarrow> good s \<and> members (fst st) \<subseteq> members (fst s)
     \<and> (\<exists>r. snd s = snd st @ r)
     \<and> members (fst s) \<subseteq> members (fst st) \<union> set (drop (length (snd st)) (snd s))"

text \<open>
  The subsets the closure rules force into a state: the complement of a queued subset,
  and the union of a queued subset with a disjoint member of the closure.
\<close>

definition forced :: "uint32_t \<Rightarrow> Bitset \<times> uint32_t list \<Rightarrow> uint32_t \<Rightarrow> bool" where
  "forced omega s z \<longleftrightarrow>
     (\<exists>x\<in>set (snd s). z = omega XOR x \<or> (\<exists>y\<in>members (fst s). x AND y = 0 \<and> z = x OR y))"

text \<open>
  The first \<open>k\<close> entries of the queue have been taken from it: their complements are in
  the closure, and so is their union with every disjoint member of the closure that is
  not still waiting in the queue.
\<close>

definition closed_upto :: "uint32_t \<Rightarrow> Bitset \<times> uint32_t list \<Rightarrow> nat \<Rightarrow> bool" where
  "closed_upto omega s k \<longleftrightarrow>
     (\<forall>x\<in>set (take k (snd s)).
        omega XOR x \<in> members (fst s)
        \<and> (\<forall>y\<in>members (fst s). x AND y = 0
              \<longrightarrow> y \<in> set (drop k (snd s)) \<or> x OR y \<in> members (fst s)))"

text \<open>A family of subset indices that is closed under the two rules of a Dynkin system.\<close>

definition dynkin_closed :: "uint32_t \<Rightarrow> uint32_t set \<Rightarrow> bool" where
  "dynkin_closed omega S \<longleftrightarrow>
     (\<forall>s\<in>S. omega XOR s \<in> S) \<and> (\<forall>x\<in>S. \<forall>y\<in>S. x AND y = 0 \<longrightarrow> x OR y \<in> S)"

text \<open>
  The subsets that the two rules force into a family \<open>S\<close>: those that belong to every
  family that contains \<open>S\<close> and is closed under the rules.
\<close>

definition dynkin_hull :: "uint32_t \<Rightarrow> uint32_t set \<Rightarrow> uint32_t set" where
  "dynkin_hull omega S = {z. \<forall>D. S \<subseteq> D \<and> dynkin_closed omega D \<longrightarrow> z \<in> D}"

text \<open>
  The exclude-commit of the enumerator: \<^verbatim>\<open>bs_set(excluded, m); bs_set(excluded, omega ^ m)\<close>.
\<close>

definition exclude_commit :: "uint32_t \<Rightarrow> Bitset \<Rightarrow> uint32_t \<Rightarrow> Bitset option" where
  "exclude_commit omega excluded m =
     do {
       excluded' \<leftarrow> bs_set excluded m;
       bs_set excluded' (omega XOR m)
     }"

text \<open>
  The first \<open>n\<close> elements of the array are filled: element 0 is the cleared bitset and
  element \<open>k + 1\<close> is element \<open>k\<close> after the exclude-commit of \<open>k + 1\<close>.
\<close>

definition filled :: "uint32_t \<Rightarrow> Bitset list \<Rightarrow> nat \<Rightarrow> bool" where
  "filled omega arr n \<longleftrightarrow>
     n \<le> length arr \<and> (0 < n \<longrightarrow> arr ! 0 = bs_clear)
     \<and> (\<forall>k. Suc k < n \<longrightarrow> exclude_commit omega (arr ! k) (of_nat (Suc k)) = Some (arr ! Suc k))"

text \<open>The subsets marked in element \<open>k\<close> of the array: \<open>j\<close> and its complement for \<open>j = 1, ..., k\<close>.\<close>

definition marks :: "uint32_t \<Rightarrow> nat \<Rightarrow> uint32_t set" where
  "marks omega k = (\<Union>j\<in>{1..k}. {of_nat j, omega XOR of_nat j})"

text \<open>Two well-formed bitsets that mark the same subsets outside of \<open>D\<close>.\<close>

definition agree_outside :: "uint32_t set \<Rightarrow> Bitset \<Rightarrow> Bitset \<Rightarrow> bool" where
  "agree_outside D exc exc' \<longleftrightarrow>
     bs_wf exc \<and> bs_wf exc' \<and> members exc - D = members exc' - D"

text \<open>
  A search state is the loop index \<open>m\<close> of \<^verbatim>\<open>inner\<close> with its \<open>included\<close> and
  \<open>excluded\<close>.  One step of the loop at \<open>m\<close> skips a decided index, enters the
  recursive call after a successful \<open>extend_closure\<close>, or goes on to \<open>m + 1\<close> after the
  exclude-commit of \<open>m\<close> and \<open>omega XOR m\<close>.
\<close>

inductive inner_step ::
  "uint32_t \<Rightarrow> uint32_t \<times> Bitset \<times> Bitset \<Rightarrow> uint32_t \<times> Bitset \<times> Bitset \<Rightarrow> bool"
  for omega :: uint32_t where
  step_skip:
    "m < drop_bit 1 (omega + 1) \<Longrightarrow> bs_get included m = Some is_in
     \<Longrightarrow> (if is_in then Some True else bs_get excluded m) = Some True
     \<Longrightarrow> inner_step omega (m, included, excluded) (m + 1, included, excluded)"
| step_in:
    "m < drop_bit 1 (omega + 1) \<Longrightarrow> bs_get included m = Some False
     \<Longrightarrow> bs_get excluded m = Some False
     \<Longrightarrow> extend_closure omega included m excluded = Some (True, closure)
     \<Longrightarrow> inner_step omega (m, included, excluded) (m + 1, bs_copy closure, bs_copy excluded)"
| step_out:
    "m < drop_bit 1 (omega + 1) \<Longrightarrow> bs_get included m = Some False
     \<Longrightarrow> bs_get excluded m = Some False
     \<Longrightarrow> extend_closure omega included m excluded = Some r
     \<Longrightarrow> bs_set excluded m = Some excluded'
     \<Longrightarrow> bs_set excluded' (omega XOR m) = Some excluded''
     \<Longrightarrow> inner_step omega (m, included, excluded) (m + 1, included, excluded'')"

text \<open>
  The states of the enumeration for one \<open>omega\<close>.  The serial run starts \<^verbatim>\<open>inner\<close> at
  index 1 on the base family with nothing excluded.  The driver starts \<^verbatim>\<open>inner\<close> for
  each top-level index \<open>m\<close> on the closure of the base family extended by \<open>m\<close>, with
  \<^verbatim>\<open>root_excluded[m - 1]\<close> to which it has added \<open>m\<close> and \<open>omega XOR m\<close>.  The second
  argument records that top-level index (\<open>None\<close> in the serial run).
\<close>

inductive search_state ::
  "uint32_t \<Rightarrow> uint32_t option \<Rightarrow> uint32_t \<times> Bitset \<times> Bitset \<Rightarrow> bool"
  for omega :: uint32_t where
  serial:
    "base_included omega = Some included
     \<Longrightarrow> search_state omega None (1, included, bs_clear)"
| dispatch:
    "base_included omega = Some included
     \<Longrightarrow> root_excluded omega (drop_bit 1 (omega + 1)) = Some arr
     \<Longrightarrow> 1 \<le> m \<Longrightarrow> m < drop_bit 1 (omega + 1)
     \<Longrightarrow> load arr (m - 1) = Some ex_here
     \<Longrightarrow> bs_get included m = Some False \<Longrightarrow> bs_get ex_here m = Some False
     \<Longrightarrow> extend_closure omega included m ex_here = Some (True, closure)
     \<Longrightarrow> bs_set (bs_copy ex_here) m = Some e
     \<Longrightarrow> bs_set e (omega XOR m) = Some new_exc
     \<Longrightarrow> search_state omega (Some m) (m + 1, closure, new_exc)"
| step:
    "search_state omega root s \<Longrightarrow> inner_step omega s s' \<Longrightarrow> search_state omega root s'"

text \<open>The invariant of a search state; \<open>D\<close> holds the subsets that may be marked twice.\<close>

definition search_inv :: "uint32_t \<Rightarrow> uint32_t set \<Rightarrow> uint32_t \<times> Bitset \<times> Bitset \<Rightarrow> bool" where
  "search_inv omega D s \<longleftrightarrow>
     (case s of (m, included, excluded) \<Rightarrow>
        bs_wf included \<and> bs_wf excluded
        \<and> 0 \<in> members included \<and> omega \<in> members included
        \<and> dynkin_closed omega (members included)
        \<and> members included \<inter> members excluded \<subseteq> D)"

text \<open>The subsets that a state of the given origin may mark in both bitsets.\<close>

definition twice_marked :: "uint32_t \<Rightarrow> uint32_t option \<Rightarrow> uint32_t set" where
  "twice_marked omega root = (case root of None \<Rightarrow> {} | Some m \<Rightarrow> {m, omega XOR m})"

section \<open>The bitset as a set of subset indices\<close>

lemma unat_word_index: "unat (drop_bit 6 (idx :: uint32_t)) = unat idx div 64"
  by (simp add: drop_bit_eq_div unat_div)

lemma unat_bit_index: "unat ((idx :: uint32_t) AND 63) = unat idx mod 64"
proof -
  have "(63 :: uint32_t) = mask 6"
    by (simp add: mask_eq_exp_minus_1)
  then have "idx AND 63 = take_bit 6 idx"
    by (simp add: take_bit_eq_mask)
  then show ?thesis
    by (simp add: take_bit_eq_mod unat_mod)
qed

lemma test_bit_iff: "drop_bit k (word :: uint64_t) AND 1 \<noteq> 0 \<longleftrightarrow> bit word k"
  by (simp add: and_one_eq bit_iff_odd_drop_bit mod_2_eq_odd)

lemma bs_get_eq:
  "bs_get bs idx =
     (if unat idx div 64 < length (bits bs)
      then Some (bit (bits bs ! (unat idx div 64)) (unat idx mod 64)) else None)"
  by (simp add: bs_get_def unat_word_index unat_bit_index test_bit_iff Let_def)

lemma bs_set_eq:
  "bs_set bs idx =
     (if unat idx div 64 < length (bits bs)
      then Some (bs\<lparr>bits := (bits bs)[unat idx div 64 :=
                   set_bit (unat idx mod 64) (bits bs ! (unat idx div 64))]\<rparr>)
      else None)"
  by (simp add: bs_set_def unat_word_index unat_bit_index Let_def set_bit_eq_or)

lemma index_bound: "unat (idx :: uint32_t) div 64 < BITSET_WORDS \<longleftrightarrow> idx < 128"
  by (auto simp: BITSET_WORDS_def MAX_SUBSETS_def MAX_N_def word_less_nat_alt)

lemma bs_get_wf:
  assumes "bs_wf bs"
  shows "bs_get bs idx = (if idx < 128 then Some (idx \<in> members bs) else None)"
  using assms by (auto simp: members_def bs_get_eq bs_wf_def index_bound)

lemma members_bound: "bs_wf bs \<Longrightarrow> idx \<in> members bs \<Longrightarrow> idx < 128"
  by (auto simp: members_def bs_get_eq bs_wf_def index_bound split: if_splits)

lemma index_eqI:
  fixes i j :: uint32_t
  assumes "unat i div 64 = unat j div 64" and "unat i mod 64 = unat j mod 64"
  shows "i = j"
proof -
  have "unat i = unat j"
    using assms by (metis div_mult_mod_eq)
  then show ?thesis
    by (simp only: word_unat_eq_iff)
qed

lemma bs_set_wf:
  assumes "bs_wf bs"
  shows "bs_set bs idx = None \<longleftrightarrow> \<not> idx < 128"
    and "bs_set bs idx = Some bs' \<Longrightarrow> bs_wf bs' \<and> members bs' = insert idx (members bs)"
proof -
  show "bs_set bs idx = None \<longleftrightarrow> \<not> idx < 128"
    using assms by (simp add: bs_set_eq bs_wf_def index_bound)
  assume s: "bs_set bs idx = Some bs'"
  then have lt: "unat idx div 64 < length (bits bs)"
    and bs': "bits bs' = (bits bs)[unat idx div 64 :=
                   set_bit (unat idx mod 64) (bits bs ! (unat idx div 64))]"
    by (auto simp: bs_set_eq split: if_splits)
  have wf': "bs_wf bs'"
    using assms bs' by (simp add: bs_wf_def)
  have "j \<in> members bs' \<longleftrightarrow> j = idx \<or> j \<in> members bs" for j
  proof (cases "unat j div 64 = unat idx div 64")
    case False
    then have "j \<noteq> idx" by auto
    with False show ?thesis
      by (simp add: members_def bs_get_eq bs')
  next
    case True
    show ?thesis
    proof (cases "unat j mod 64 = unat idx mod 64")
      case False
      then have "j \<noteq> idx" by auto
      with \<open>unat j div 64 = unat idx div 64\<close> False lt show ?thesis
        by (simp add: members_def bs_get_eq bs' bit_set_bit_iff)
    next
      case eq: True
      with True have "j = idx"
        by (rule index_eqI)
      with lt show ?thesis
        by (simp add: members_def bs_get_eq bs' bit_set_bit_iff)
    qed
  qed
  with wf' show "bs_wf bs' \<and> members bs' = insert idx (members bs)"
    by auto
qed

lemma bs_set_Some:
  assumes "bs_wf bs" "idx < 128"
  shows "\<exists>bs'. bs_set bs idx = Some bs' \<and> bs_wf bs' \<and> members bs' = insert idx (members bs)"
proof (cases "bs_set bs idx")
  case None
  then have "\<not> idx < 128"
    using bs_set_wf(1) [OF assms(1)] by blast
  with assms(2) show ?thesis
    by blast
next
  case (Some bs')
  with bs_set_wf(2) [OF assms(1) Some] show ?thesis
    by blast
qed

lemma bs_copy_simps [simp]: "bs_copy bs = bs"
  by (simp add: bs_copy_def)

lemma bs_clear_wf [simp]: "bs_wf bs_clear"
  by (simp add: bs_clear_def bs_wf_def)

lemma members_bs_clear [simp]: "members bs_clear = {}"
proof -
  have "bs_get bs_clear i \<noteq> Some True" for i
    by (simp add: bs_get_eq bs_clear_def)
  then show ?thesis
    by (simp add: members_def)
qed


section \<open>The scan over the set bits of a word\<close>

lemma bit_pred_lowest:
  fixes word :: "'a::len word"
  assumes k: "bit word k" and low: "\<And>j. j < k \<Longrightarrow> \<not> bit word j"
  shows "bit (word AND (word - 1)) n \<longleftrightarrow> bit word n \<and> n \<noteq> k"
proof -
  define a where "a = push_bit (k + 1) (drop_bit (k + 1) word)"
  have bit_a: "bit a m \<longleftrightarrow> k < m \<and> bit word m" for m
    by (simp only: a_def bit_push_bit_iff bit_drop_bit_eq o_def)
      (auto dest: bit_imp_possible_bit)
  have tk: "take_bit (k + 1) word = 2 ^ k"
  proof (rule bit_eqI)
    fix m
    show "bit (take_bit (k + 1) word) m \<longleftrightarrow> bit (2 ^ k :: 'a word) m"
      using k low [of m]
      by (cases "m = k") (auto simp: bit_take_bit_iff bit_exp_iff dest: bit_imp_possible_bit)
  qed
  have "word = a + take_bit (k + 1) word"
    unfolding a_def by (rule bits_ident [symmetric])
  then have "word - 1 = a + (2 ^ k - 1)"
    using tk by simp
  then have w1: "word - 1 = a + mask k"
    by (simp add: mask_eq_exp_minus_1)
  have "bit (word - 1) n \<longleftrightarrow> bit a n \<or> bit (mask k :: 'a word) n"
    unfolding w1 by (rule bit_disjunctive_add_iff) (auto simp: bit_a bit_mask_iff)
  then show ?thesis
    using low [of n] k
    by (cases "n = k") (auto simp: bit_and_iff bit_a bit_mask_iff dest: bit_imp_possible_bit)
qed


lemma ctzll_props:
  assumes "word \<noteq> 0"
  shows "ctzll word < 64" and "bit word (ctzll word)" and "\<And>j. j < ctzll word \<Longrightarrow> \<not> bit word j"
proof -
  let ?P = "\<lambda>i. \<not> bit word i"
  from assms obtain n where n: "bit word n"
    by (auto simp: bit_eq_iff)
  then have "n < 64"
    by (auto dest: bit_imp_le_length)
  with n have ex: "\<exists>i\<in>set [0..<64]. \<not> ?P i"
    by auto
  have "takeWhile ?P [0..<64] \<noteq> [0..<64]"
    using ex by (simp only: takeWhile_eq_all_conv) blast
  then have "length (takeWhile ?P [0..<64]) \<noteq> length [0..<64]"
    by (metis takeWhile_eq_take take_all_iff order_refl)
  then have lt: "length (takeWhile ?P [0..<64]) < length [0..<64]"
    using length_takeWhile_le [of ?P "[0..<64]"] by linarith
  then show a: "ctzll word < 64"
    by (simp add: ctzll_def)
  from nth_length_takeWhile [OF lt] a show "bit word (ctzll word)"
    by (simp add: ctzll_def)
  fix j assume j: "j < ctzll word"
  then have "takeWhile ?P [0..<64] ! j \<in> set (takeWhile ?P [0..<64])"
    by (simp add: ctzll_def)
  then have "?P (takeWhile ?P [0..<64] ! j)"
    by (rule set_takeWhileD [THEN conjunct2])
  moreover have "takeWhile ?P [0..<64] ! j = [0..<64] ! j"
    using j by (simp add: ctzll_def takeWhile_nth)
  ultimately show "\<not> bit word j"
    using j a by simp
qed

lemma set_bits_step:
  assumes "word \<noteq> 0"
  shows "set_bits word = ctzll word # set_bits (word AND (word - 1))"
proof -
  let ?k = "ctzll word"
  let ?w' = "word AND (word - 1)"
  note p = ctzll_props [OF assms]
  have bw': "bit ?w' n \<longleftrightarrow> bit word n \<and> n \<noteq> ?k" for n
    by (rule bit_pred_lowest) (use p in auto)
  have split: "[0..<64] = [0..<?k] @ [?k] @ [Suc ?k..<64]"
  proof -
    have "[0..<?k + (64 - ?k)] = [0..<?k] @ [?k..<?k + (64 - ?k)]"
      by (rule upt_add_eq_append) simp
    moreover have "[?k..<64] = ?k # [Suc ?k..<64]"
      using p(1) by (rule upt_conv_Cons)
    ultimately show ?thesis
      using p(1) by simp
  qed
  have 1: "filter (bit word) [0..<?k] = []" "filter (bit ?w') [0..<?k] = []"
    using p(3) by (auto simp: filter_empty_conv bw')
  have 2: "filter (bit ?w') [Suc ?k..<64] = filter (bit word) [Suc ?k..<64]"
    by (rule filter_cong) (auto simp: bw')
  show ?thesis
    unfolding set_bits_def
    by (subst (1 2) split) (simp add: 1 2 p(2) bw' del: upt_Suc)
qed


lemma scan_word_eq:
  "scan_word excluded x w word st = scan_list excluded x (word_members w word) st"
proof (induction excluded x w word st rule: scan_word.induct)
  case (1 excluded x w word st)
  show ?case
  proof (cases "word = 0")
    case True
    then show ?thesis
      by (simp add: scan_word.simps word_members_def set_bits_def)
  next
    case False
    then have ms: "word_members w word =
        (push_bit 6 (of_nat w) + of_nat (ctzll word)) # word_members w (word AND (word - 1))"
      by (simp add: word_members_def set_bits_step)
    show ?thesis
      using False "1.IH"
      by (subst scan_word.simps)
        (auto simp: ms Let_def split: option.splits bool.splits prod.splits)
  qed
qed

section \<open>Adding one subset to the closure\<close>

lemma MAX_SUBSETS_eq: "MAX_SUBSETS = 128"
  by (simp add: MAX_SUBSETS_def MAX_N_def)

lemma BITSET_WORDS_eq: "BITSET_WORDS = 2"
  by (simp add: BITSET_WORDS_def MAX_SUBSETS_def MAX_N_def)

lemma small_indices_card:
  fixes q :: "uint32_t list"
  assumes "distinct q" and "\<And>z. z \<in> set q \<Longrightarrow> z < 128"
  shows "length q \<le> 128"
proof -
  have "unat ` set q \<subseteq> {..<128}"
    using assms(2) by (auto simp: word_less_nat_alt)
  then have "card (unat ` set q) \<le> card {..<128::nat}"
    by (intro card_mono) auto
  moreover have "card (unat ` set q) = card (set q)"
    by (rule card_image) (rule inj_onI, simp only: word_unat_eq_iff)
  moreover have "card (set q) = length q"
    using assms(1) by (rule distinct_card)
  ultimately show ?thesis
    by simp
qed

lemma add_subset_wf:
  assumes "bs_wf cl" and "bs_wf exc"
  shows "add_subset exc z (cl, q) =
     (if \<not> z < 128 then None
      else if z \<in> members cl then Some (True, cl, q)
      else if z \<in> members exc then Some (False, cl, q)
      else if length q < MAX_SUBSETS then Some (True, the (bs_set cl z), q @ [z])
      else None)"
proof (cases "z < 128")
  case False
  with assms show ?thesis
    by (simp add: add_subset_def bs_get_wf)
next
  case True
  from bs_set_Some [OF assms(1) True] obtain cl' where "bs_set cl z = Some cl'"
    by blast
  with True assms show ?thesis
    by (simp add: add_subset_def bs_get_wf enqueue_def)
qed

lemma add_subset_cases:
  assumes "add_subset exc z st = Some (b, st')" and "bs_wf (fst st)" and "bs_wf exc"
  shows "z < 128 \<and>
     (b \<and> z \<in> members (fst st) \<and> st' = st
      \<or> \<not> b \<and> z \<notin> members (fst st) \<and> z \<in> members exc \<and> st' = st
      \<or> b \<and> z \<notin> members (fst st) \<and> z \<notin> members exc \<and> length (snd st) < MAX_SUBSETS
          \<and> bs_wf (fst st') \<and> members (fst st') = insert z (members (fst st))
          \<and> snd st' = snd st @ [z])"
proof -
  obtain cl q where st: "st = (cl, q)"
    by (cases st)
  have wf: "bs_wf cl"
    using assms(2) by (simp add: st)
  note eq = assms(1) [unfolded st add_subset_wf [OF wf assms(3)]]
  have z: "z < 128"
    using eq by (simp split: if_splits)
  from bs_set_Some [OF wf z] obtain cl' where
    cl': "bs_set cl z = Some cl'" "bs_wf cl'" "members cl' = insert z (members cl)"
    by blast
  show ?thesis
  proof (cases "z \<in> members cl")
    case True
    with eq z show ?thesis
      by (auto simp: st)
  next
    case False
    note nin = this
    show ?thesis
    proof (cases "z \<in> members exc")
      case True
      with eq z nin show ?thesis
        by (auto simp: st)
    next
      case False
      have len: "length q < MAX_SUBSETS"
        using eq z nin False by (simp split: if_splits)
      with eq z nin False have "b" and "st' = (cl', q @ [z])"
        by (simp_all add: cl')
      with z nin False len cl' show ?thesis
        by (simp add: st)
    qed
  qed
qed

lemma add_subset_good:
  assumes "add_subset exc z st = Some (b, st')" and "good st" and "bs_wf exc"
  shows "good st'" and "members (fst st) \<subseteq> members (fst st')"
    and "\<exists>r. snd st' = snd st @ r"
    and "members (fst st') \<subseteq> members (fst st) \<union> set (drop (length (snd st)) (snd st'))"
    and "b \<Longrightarrow> z \<in> members (fst st')"
proof -
  have wf: "bs_wf (fst st)"
    using assms(2) by (simp add: good_def)
  note c = add_subset_cases [OF assms(1) wf assms(3)]
  from c assms(2) show "good st'"
    by (elim conjE disjE) (auto simp: good_def)
  from c show "members (fst st) \<subseteq> members (fst st')"
    by (elim conjE disjE) auto
  from c show "\<exists>r. snd st' = snd st @ r"
    by (elim conjE disjE) auto
  from c show "members (fst st') \<subseteq> members (fst st) \<union> set (drop (length (snd st)) (snd st'))"
    by (elim conjE disjE) auto
  from c show "z \<in> members (fst st')" if b
    using that by (elim conjE disjE) auto
qed

lemma add_subset_total:
  assumes "good st" and "bs_wf exc" and "z < 128"
  shows "\<exists>b st'. add_subset exc z st = Some (b, st')"
proof (cases "z \<in> members (fst st)")
  case True
  with assms show ?thesis
    by (cases st) (auto simp: add_subset_wf good_def)
next
  case False
  from assms(1) have d: "distinct (z # snd st)"
    using False by (auto simp: good_def)
  have "y < 128" if "y \<in> set (z # snd st)" for y
    using that assms members_bound [of "fst st" y] by (auto simp: good_def)
  with d have "length (z # snd st) \<le> 128"
    by (rule small_indices_card)
  then have "length (snd st) < MAX_SUBSETS"
    by (simp add: MAX_SUBSETS_eq)
  with assms show ?thesis
    by (cases st) (auto simp: add_subset_wf good_def)
qed


lemma scan_list_rule:
  assumes "scan_list exc x ys st = Some (b, st')" and "P st"
    and "\<And>y s b' s'. y \<in> set ys \<Longrightarrow> x AND y = 0 \<Longrightarrow> P s
           \<Longrightarrow> add_subset exc (x OR y) s = Some (b', s') \<Longrightarrow> P s'"
  shows "P st'"
  using assms
proof (induction ys arbitrary: st)
  case Nil
  then show ?case
    by simp
next
  case (Cons y ys)
  note step = Cons.prems(3)
  have rest: "P st'" if "scan_list exc x ys s = Some (b, st')" and "P s" for s
    using that by (rule Cons.IH) (rule step, auto)
  show ?case
  proof (cases "x AND y = 0")
    case False
    with Cons.prems(1,2) rest show ?thesis
      by simp
  next
    case True
    then obtain b' s' where a: "add_subset exc (x OR y) st = Some (b', s')"
      using Cons.prems(1) by (cases "add_subset exc (x OR y) st") auto
    have P': "P s'"
      using step [OF _ True Cons.prems(2) a] by simp
    show ?thesis
    proof (cases b')
      case False
      with Cons.prems(1) True a P' show ?thesis
        by simp
    next
      case b': True
      with Cons.prems(1) True a have "scan_list exc x ys s' = Some (b, st')"
        by simp
      then show ?thesis
        using P' by (rule rest)
    qed
  qed
qed

lemma scan_list_good:
  assumes "scan_list exc x ys st = Some (b, st')" and "good st" and "bs_wf exc"
  shows "good st' \<and> members (fst st) \<subseteq> members (fst st')
           \<and> (\<exists>r. snd st' = snd st @ r)
           \<and> members (fst st') \<subseteq> members (fst st) \<union> set (drop (length (snd st)) (snd st'))"
proof (rule scan_list_rule [OF assms(1), where P = "\<lambda>s. good s \<and> members (fst st) \<subseteq> members (fst s)
           \<and> (\<exists>r. snd s = snd st @ r)
           \<and> members (fst s) \<subseteq> members (fst st) \<union> set (drop (length (snd st)) (snd s))"],
    goal_cases)
  case 1
  with assms(2) show ?case
    by simp
next
  case (2 y s b' s')
  then have g: "good s" and m: "members (fst st) \<subseteq> members (fst s)"
    and r: "\<exists>r. snd s = snd st @ r"
    and n: "members (fst s) \<subseteq> members (fst st) \<union> set (drop (length (snd st)) (snd s))"
    by blast+
  note a = add_subset_good [OF 2(4) g assms(3)]
  from r obtain r1 where r1: "snd s = snd st @ r1"
    by blast
  from a(3) obtain r2 where r2: "snd s' = snd s @ r2"
    by blast
  have "members (fst s') \<subseteq> members (fst st) \<union> set (drop (length (snd st)) (snd s'))"
    using a(4) n by (auto simp: r1 r2)
  with a(1) a(2) m r1 r2 show ?case
    by auto
qed

lemma or_less_128:
  fixes x y :: uint32_t
  assumes "x < 128" and "y < 128"
  shows "x OR y < 128"
proof -
  have "x < 2 ^ 7" "y < 2 ^ 7"
    using assms by simp_all
  then have "x AND mask 7 = x" "y AND mask 7 = y"
    by (simp_all only: less_mask_eq)
  then have "take_bit 7 x = x" "take_bit 7 y = y"
    by (simp_all only: take_bit_eq_mask)
  then have "take_bit 7 (x OR y) = x OR y"
    by (simp only: take_bit_or)
  then have "(x OR y) AND mask 7 = x OR y"
    by (simp only: take_bit_eq_mask)
  moreover have "(x OR y) AND mask 7 < 2 ^ 7"
    by (rule and_mask_less') simp
  ultimately show ?thesis
    by simp
qed

lemma xor_less_128:
  fixes x y :: uint32_t
  assumes "x < 128" and "y < 128"
  shows "x XOR y < 128"
proof -
  have "x < 2 ^ 7" "y < 2 ^ 7"
    using assms by simp_all
  then have "x AND mask 7 = x" "y AND mask 7 = y"
    by (simp_all only: less_mask_eq)
  then have "take_bit 7 x = x" "take_bit 7 y = y"
    by (simp_all only: take_bit_eq_mask)
  then have "take_bit 7 (x XOR y) = x XOR y"
    by (simp only: take_bit_xor)
  then have "(x XOR y) AND mask 7 = x XOR y"
    by (simp only: take_bit_eq_mask)
  moreover have "(x XOR y) AND mask 7 < 2 ^ 7"
    by (rule and_mask_less') simp
  ultimately show ?thesis
    by simp
qed

lemma scan_list_total:
  assumes "good st" and "bs_wf exc" and "x < 128" and "\<And>y. y \<in> set ys \<Longrightarrow> y < 128"
  shows "\<exists>b st'. scan_list exc x ys st = Some (b, st')"
  using assms
proof (induction ys arbitrary: st)
  case Nil
  show ?case
    by auto
next
  case (Cons y ys)
  have y: "y < 128"
    using Cons.prems(4) by simp
  have rest: "\<exists>b st'. scan_list exc x ys s = Some (b, st')" if "good s" for s
    using that Cons.prems(2,3,4) by (intro Cons.IH) auto
  show ?case
  proof (cases "x AND y = 0")
    case False
    with rest [OF Cons.prems(1)] show ?thesis
      by simp
  next
    case True
    from add_subset_total [OF Cons.prems(1,2) or_less_128 [OF Cons.prems(3) y]]
    obtain b' s' where a: "add_subset exc (x OR y) st = Some (b', s')"
      by blast
    note g = add_subset_good(1) [OF a Cons.prems(1,2)]
    show ?thesis
    proof (cases b')
      case False
      with True a show ?thesis
        by auto
    next
      case b': True
      with True a rest [OF g] show ?thesis
        by auto
    qed
  qed
qed

lemma scan_list_covers:
  assumes "scan_list exc x ys st = Some (True, st')" and "good st" and "bs_wf exc"
    and "y \<in> set ys" and "x AND y = 0"
  shows "x OR y \<in> members (fst st')"
  using assms
proof (induction ys arbitrary: st)
  case Nil
  then show ?case
    by simp
next
  case (Cons y' ys)
  show ?case
  proof (cases "x AND y' = 0")
    case False
    with Cons.prems have "scan_list exc x ys st = Some (True, st')" and "y \<in> set ys"
      by auto
    with Cons.prems(2,3,5) show ?thesis
      by (intro Cons.IH)
  next
    case True
    then obtain b' s' where a: "add_subset exc (x OR y') st = Some (b', s')"
      using Cons.prems(1) by (cases "add_subset exc (x OR y') st") auto
    with True Cons.prems(1) have b': "b'" and rest: "scan_list exc x ys s' = Some (True, st')"
      by (auto split: if_splits bool.splits)
    note g = add_subset_good [OF a Cons.prems(2,3)]
    show ?thesis
    proof (cases "y = y'")
      case True
      with g(5) b' have "x OR y \<in> members (fst s')"
        by simp
      with scan_list_good [OF rest g(1) Cons.prems(3)] show ?thesis
        by blast
    next
      case False
      with Cons.prems(4) have "y \<in> set ys"
        by simp
      with rest g(1) Cons.prems(3,5) show ?thesis
        by (intro Cons.IH)
    qed
  qed
qed

section \<open>The scan over the closure\<close>

lemma unat_word_member:
  assumes "w < 2" and "i < 64"
  shows "unat (push_bit 6 (of_nat w) + of_nat i :: uint32_t) = 64 * w + i"
proof -
  have e: "(push_bit 6 (of_nat w) + of_nat i :: uint32_t) = of_nat (64 * w + i)"
    by (simp add: push_bit_eq_mult)
  have lt: "64 * w + i < 2 ^ 32"
    using assms by simp
  show ?thesis
    unfolding e by (subst unat_of_nat) (use lt in simp)
qed

lemma set_set_bits: "set (set_bits word) = {i. bit word i}"
  by (auto simp: set_bits_def dest: bit_imp_le_length)

lemma word_members_iff:
  assumes "bs_wf cl" and "w < BITSET_WORDS"
  shows "y \<in> set (word_members w (bits cl ! w)) \<longleftrightarrow> y \<in> members cl \<and> unat y div 64 = w"
proof
  assume "y \<in> set (word_members w (bits cl ! w))"
  then obtain i where i: "bit (bits cl ! w) i" and y: "y = push_bit 6 (of_nat w) + of_nat i"
    by (auto simp: word_members_def set_set_bits)
  from i have i64: "i < 64"
    by (auto dest: bit_imp_le_length)
  have u: "unat y = 64 * w + i"
    unfolding y using assms(2) i64 by (intro unat_word_member) (simp add: BITSET_WORDS_eq)
  with i64 have "unat y div 64 = w" "unat y mod 64 = i"
    by simp_all
  with i assms show "y \<in> members cl \<and> unat y div 64 = w"
    by (simp add: members_def bs_get_eq bs_wf_def)
next
  assume a: "y \<in> members cl \<and> unat y div 64 = w"
  let ?i = "unat y mod 64"
  from a assms have b: "bit (bits cl ! w) ?i"
    by (auto simp: members_def bs_get_eq bs_wf_def split: if_splits)
  have u: "unat (push_bit 6 (of_nat w) + of_nat ?i :: uint32_t) = 64 * w + ?i"
    using assms(2) by (intro unat_word_member) (simp_all add: BITSET_WORDS_eq)
  have "y = push_bit 6 (of_nat w) + of_nat ?i"
    by (rule index_eqI) (use a in \<open>simp_all add: u\<close>)
  with b show "y \<in> set (word_members w (bits cl ! w))"
    by (auto simp: word_members_def set_set_bits)
qed

lemma scan_words_rule:
  assumes "scan_words exc x w st = Some (b, st')" and "P st"
    and "\<And>s. P s \<Longrightarrow> good s" and "bs_wf exc"
    and "\<And>y s b' s'. y \<in> members (fst s) \<Longrightarrow> x AND y = 0 \<Longrightarrow> P s
           \<Longrightarrow> add_subset exc (x OR y) s = Some (b', s') \<Longrightarrow> P s'"
  shows "P st'"
  using assms
proof (induction exc x w st rule: scan_words.induct)
  case (1 exc x w st)
  note Pgood = "1.prems"(3) and wfe = "1.prems"(4) and step = "1.prems"(5)
  note g = Pgood [OF "1.prems"(2)]
  show ?case
  proof (cases "w < BITSET_WORDS")
    case False
    with "1.prems"(1,2) show ?thesis
      by (simp add: scan_words.simps [of exc x w st])
  next
    case True
    with g have len: "w < length (bits (fst st))"
      by (simp add: good_def bs_wf_def)
    let ?ys = "word_members w (bits (fst st) ! w)"
    from True len "1.prems"(1) obtain c s1 where
      sl: "scan_list exc x ?ys st = Some (c, s1)"
      by (cases "scan_list exc x ?ys st")
        (auto simp: scan_words.simps [of exc x w st] scan_word_eq)
    have "P s1 \<and> members (fst st) \<subseteq> members (fst s1)"
    proof (rule scan_list_rule [OF sl, where P = "\<lambda>s. P s \<and> members (fst st) \<subseteq> members (fst s)"],
        goal_cases)
      case 1
      from "1.prems"(2) show ?case
        by simp
    next
      case (2 y s b' s')
      from 2(1) g True have "y \<in> members (fst st)"
        by (simp add: word_members_iff good_def)
      with 2(3) have ym: "y \<in> members (fst s)"
        by blast
      from 2(3) have Ps: "P s"
        by blast
      from ym 2(2) Ps 2(4) have "P s'"
        by (rule step)
      moreover have "members (fst s) \<subseteq> members (fst s')"
        using 2(4) Pgood [OF Ps] wfe by (rule add_subset_good(2))
      ultimately show ?case
        using 2(3) by blast
    qed
    then have P1: "P s1"
      by blast
    show ?thesis
    proof (cases c)
      case False
      with True len sl "1.prems"(1) P1 show ?thesis
        by (simp add: scan_words.simps [of exc x w st] scan_word_eq)
    next
      case c: True
      with True len sl "1.prems"(1) have "scan_words exc x (w + 1) s1 = Some (b, st')"
        by (simp add: scan_words.simps [of exc x w st] scan_word_eq)
      then show ?thesis
        using P1 Pgood wfe step True len sl c
        by (intro "1.IH" [of "(c, s1)" c s1]) (simp_all add: scan_word_eq)
    qed
  qed
qed


lemma extends_refl: "good st \<Longrightarrow> extends st st"
  by (simp add: extends_def)

lemma extends_good: "extends st s \<Longrightarrow> good s"
  by (simp add: extends_def)

lemma extends_trans:
  assumes "extends st s" and "extends s s'"
  shows "extends st s'"
proof -
  from assms(1) obtain r1 where r1: "snd s = snd st @ r1"
    by (auto simp: extends_def)
  from assms(2) obtain r2 where r2: "snd s' = snd s @ r2"
    by (auto simp: extends_def)
  have "members (fst s') \<subseteq> members (fst st) \<union> set (drop (length (snd st)) (snd s'))"
    using assms by (auto simp: extends_def r1 r2)
  with assms r1 r2 show ?thesis
    by (auto simp: extends_def)
qed

lemma extends_add:
  assumes "add_subset exc z s = Some (b, s')" and "good s" and "bs_wf exc"
  shows "extends s s'"
  using add_subset_good [OF assms] by (simp add: extends_def)

lemma scan_list_extends:
  assumes "scan_list exc x ys st = Some (b, st')" and "good st" and "bs_wf exc"
  shows "extends st st'"
  using scan_list_good [OF assms] by (simp add: extends_def)

lemma scan_words_extends:
  assumes "scan_words exc x w st = Some (b, st')" and "good st" and "bs_wf exc"
  shows "extends st st'"
proof (rule scan_words_rule [OF assms(1), where P = "extends st"])
  show "extends st st"
    using assms(2) by (rule extends_refl)
  show "bs_wf exc"
    by fact
  show "good s" if "extends st s" for s
    using that by (rule extends_good)
  show "extends st s'"
    if "extends st s" and "add_subset exc (x OR y) s = Some (b', s')" for y s b' s'
    using that(1) extends_add [OF that(2) extends_good [OF that(1)] assms(3)]
    by (rule extends_trans)
qed

lemma scan_words_total:
  assumes "good st" and "bs_wf exc" and "x < 128"
  shows "\<exists>b st'. scan_words exc x w st = Some (b, st')"
  using assms
proof (induction exc x w st rule: scan_words.induct)
  case (1 exc x w st)
  show ?case
  proof (cases "w < BITSET_WORDS")
    case False
    then show ?thesis
      by (auto simp: scan_words.simps [of exc x w st])
  next
    case True
    with "1.prems"(1) have len: "w < length (bits (fst st))"
      by (simp add: good_def bs_wf_def)
    let ?ys = "word_members w (bits (fst st) ! w)"
    have "y < 128" if "y \<in> set ?ys" for y
      using that "1.prems"(1) True members_bound [of "fst st" y]
      by (simp add: word_members_iff good_def)
    with "1.prems" obtain c s1 where sl: "scan_list exc x ?ys st = Some (c, s1)"
      using scan_list_total [of st exc x ?ys] by blast
    from scan_list_extends [OF sl "1.prems"(1,2)] have g1: "good s1"
      by (rule extends_good)
    show ?thesis
    proof (cases c)
      case False
      with True len sl show ?thesis
        by (auto simp: scan_words.simps [of exc x w st] scan_word_eq)
    next
      case c: True
      have "\<exists>b st'. scan_words exc x (w + 1) s1 = Some (b, st')"
        using True len sl c g1 "1.prems"(2,3)
        by (intro "1.IH" [of "(c, s1)" c s1]) (simp_all add: scan_word_eq)
      with True len sl c show ?thesis
        by (auto simp: scan_words.simps [of exc x w st] scan_word_eq)
    qed
  qed
qed

lemma scan_words_covers:
  assumes "scan_words exc x w st = Some (True, st')" and "good st" and "bs_wf exc"
    and "y \<in> members (fst st)" and "w \<le> unat y div 64" and "x AND y = 0"
  shows "x OR y \<in> members (fst st')"
  using assms
proof (induction exc x w st rule: scan_words.induct)
  case (1 exc x w st)
  have wf: "bs_wf (fst st)"
    using "1.prems"(2) by (simp add: good_def)
  from members_bound [OF wf "1.prems"(4)] have "unat y div 64 < BITSET_WORDS"
    by (simp add: index_bound)
  with "1.prems"(5) have True: "w < BITSET_WORDS"
    by simp
  with wf have len: "w < length (bits (fst st))"
    by (simp add: bs_wf_def)
  let ?ys = "word_members w (bits (fst st) ! w)"
  from True len "1.prems"(1) obtain c s1 where
    sl: "scan_list exc x ?ys st = Some (c, s1)"
    by (cases "scan_list exc x ?ys st")
      (auto simp: scan_words.simps [of exc x w st] scan_word_eq)
  with True len "1.prems"(1) have c: "c"
    and rest: "scan_words exc x (w + 1) s1 = Some (True, st')"
    by (auto simp: scan_words.simps [of exc x w st] scan_word_eq split: if_splits bool.splits)
  note e1 = scan_list_extends [OF sl "1.prems"(2,3)]
  note g1 = extends_good [OF e1]
  show ?case
  proof (cases "unat y div 64 = w")
    case eq: True
    with "1.prems"(4) wf True have "y \<in> set ?ys"
      by (simp add: word_members_iff)
    with sl c "1.prems"(2,3,6) have "x OR y \<in> members (fst s1)"
      by (intro scan_list_covers [of exc x ?ys st s1 y]) simp_all
    with scan_words_extends [OF rest g1 "1.prems"(3)] show ?thesis
      by (auto simp: extends_def)
  next
    case False
    with "1.prems"(5) have "w + 1 \<le> unat y div 64"
      by simp
    moreover from e1 "1.prems"(4) have "y \<in> members (fst s1)"
      by (auto simp: extends_def)
    ultimately show ?thesis
      using rest g1 "1.prems"(3,6) True len sl c
      by (intro "1.IH" [of "(c, s1)" c s1]) (simp_all add: scan_word_eq)
  qed
qed

section \<open>The work loop\<close>

lemma ec_while_rule:
  assumes "ec_while omega exc qs st = Some (b, st')" and "P st"
    and "\<And>s. P s \<Longrightarrow> good s" and "bs_wf exc"
    and "\<And>z s b' s'. forced omega s z \<Longrightarrow> P s
           \<Longrightarrow> add_subset exc z s = Some (b', s') \<Longrightarrow> P s'"
  shows "P st'"
  using assms
proof (induction omega exc qs st rule: ec_while.induct)
  case (1 omega exc qs st)
  note Pgood = "1.prems"(3) and wfe = "1.prems"(4) and step = "1.prems"(5)
  show ?case
  proof (cases "qs < length (snd st)")
    case False
    with "1.prems"(1,2) show ?thesis
      by (simp add: ec_while.simps [of omega exc qs st])
  next
    case True
    let ?x = "snd st ! qs"
    from True have xq: "?x \<in> set (snd st)"
      by simp
    from True "1.prems"(1) obtain c s1 where
      a: "add_subset exc (omega XOR ?x) st = Some (c, s1)"
      by (cases "add_subset exc (omega XOR ?x) st")
        (auto simp: ec_while.simps [of omega exc qs st] Let_def)
    have "forced omega st (omega XOR ?x)"
      using xq by (auto simp: forced_def)
    from this "1.prems"(2) a have P1: "P s1"
      by (rule step)
    have x1: "?x \<in> set (snd s1)"
      using add_subset_good(3) [OF a Pgood [OF "1.prems"(2)] wfe] xq by auto
    show ?thesis
    proof (cases c)
      case False
      with True a "1.prems"(1) P1 show ?thesis
        by (simp add: ec_while.simps [of omega exc qs st] Let_def)
    next
      case c: True
      with True a "1.prems"(1) obtain c' s2 where
        sw: "scan_words exc ?x 0 s1 = Some (c', s2)"
        by (cases "scan_words exc ?x 0 s1")
          (auto simp: ec_while.simps [of omega exc qs st] Let_def)
      have "P s2 \<and> ?x \<in> set (snd s2)"
      proof (rule scan_words_rule [OF sw, where P = "\<lambda>s. P s \<and> ?x \<in> set (snd s)"], goal_cases)
        case 1
        from P1 x1 show ?case
          by simp
      next
        case (2 s)
        then show ?case
          by (simp add: Pgood)
      next
        case 3
        show ?case
          by fact
      next
        case (4 y s b' s')
        then have Ps: "P s" and xs: "?x \<in> set (snd s)"
          by simp_all
        have "forced omega s (?x OR y)"
          using xs 4(1,2) by (auto simp: forced_def)
        from this Ps 4(4) have "P s'"
          by (rule step)
        moreover have "?x \<in> set (snd s')"
          using add_subset_good(3) [OF 4(4) Pgood [OF Ps] wfe] xs by auto
        ultimately show ?case
          by simp
      qed
      then have P2: "P s2"
        by simp
      show ?thesis
      proof (cases c')
        case False
        with True a c sw "1.prems"(1) P2 show ?thesis
          by (simp add: ec_while.simps [of omega exc qs st] Let_def)
      next
        case c': True
        with True a c sw "1.prems"(1) have "ec_while omega exc (qs + 1) s2 = Some (b, st')"
          by (simp add: ec_while.simps [of omega exc qs st] Let_def)
        then show ?thesis
          using P2 Pgood wfe step True a c sw c'
          by (intro "1.IH" [of ?x "omega XOR ?x" "(c, s1)" c s1 "(c', s2)" c' s2]) simp_all
      qed
    qed
  qed
qed

lemma ec_while_extends:
  assumes "ec_while omega exc qs st = Some (b, st')" and "good st" and "bs_wf exc"
  shows "extends st st'"
proof (rule ec_while_rule [OF assms(1), where P = "extends st"])
  show "extends st st"
    using assms(2) by (rule extends_refl)
  show "bs_wf exc"
    by fact
  show "good s" if "extends st s" for s
    using that by (rule extends_good)
  show "extends st s'"
    if "extends st s" and "add_subset exc z s = Some (b', s')" for z s b' s'
    using that(1) extends_add [OF that(2) extends_good [OF that(1)] assms(3)]
    by (rule extends_trans)
qed

lemma ec_while_total:
  assumes "good st" and "bs_wf exc" and "omega < 128"
  shows "\<exists>b st'. ec_while omega exc qs st = Some (b, st')"
  using assms
proof (induction omega exc qs st rule: ec_while.induct)
  case (1 omega exc qs st)
  show ?case
  proof (cases "qs < length (snd st)")
    case False
    then show ?thesis
      by (auto simp: ec_while.simps [of omega exc qs st])
  next
    case True
    let ?x = "snd st ! qs"
    from True "1.prems"(1) have "?x \<in> members (fst st)"
      by (auto simp: good_def)
    with "1.prems"(1) have x: "?x < 128"
      by (auto simp: good_def intro: members_bound)
    from add_subset_total [OF "1.prems"(1,2) xor_less_128 [OF "1.prems"(3) x]]
    obtain c s1 where a: "add_subset exc (omega XOR ?x) st = Some (c, s1)"
      by blast
    note g1 = add_subset_good(1) [OF a "1.prems"(1,2)]
    show ?thesis
    proof (cases c)
      case False
      with True a show ?thesis
        by (auto simp: ec_while.simps [of omega exc qs st] Let_def)
    next
      case c: True
      from scan_words_total [OF g1 "1.prems"(2) x]
      obtain c' s2 where sw: "scan_words exc ?x 0 s1 = Some (c', s2)"
        by blast
      note g2 = extends_good [OF scan_words_extends [OF sw g1 "1.prems"(2)]]
      show ?thesis
      proof (cases c')
        case False
        with True a c sw show ?thesis
          by (auto simp: ec_while.simps [of omega exc qs st] Let_def)
      next
        case c': True
        have "\<exists>b st'. ec_while omega exc (qs + 1) s2 = Some (b, st')"
          using g2 "1.prems"(2,3) True a c sw c'
          by (intro "1.IH" [of ?x "omega XOR ?x" "(c, s1)" c s1 "(c', s2)" c' s2]) simp_all
        with True a c sw c' show ?thesis
          by (auto simp: ec_while.simps [of omega exc qs st] Let_def)
      qed
    qed
  qed
qed


lemma closed_upto_step:
  assumes c: "closed_upto omega st qs" and qs: "qs < length (snd st)"
    and e1: "extends st s1" and e2: "extends s1 s2"
    and comp: "omega XOR (snd st ! qs) \<in> members (fst s1)"
    and cover: "\<And>y. y \<in> members (fst s1) \<Longrightarrow> (snd st ! qs) AND y = 0
                  \<Longrightarrow> (snd st ! qs) OR y \<in> members (fst s2)"
    and g: "good st"
  shows "closed_upto omega s2 (Suc qs)"
proof -
  let ?x = "snd st ! qs"
  let ?q = "snd st"
  from e1 obtain r1 where r1: "snd s1 = ?q @ r1"
    by (auto simp: extends_def)
  from e2 obtain r2 where r2: "snd s2 = snd s1 @ r2"
    by (auto simp: extends_def)
  have q2: "snd s2 = ?q @ r1 @ r2"
    by (simp add: r1 r2)
  have m01: "members (fst st) \<subseteq> members (fst s1)"
    and m12: "members (fst s1) \<subseteq> members (fst s2)"
    using e1 e2 by (auto simp: extends_def)
  have new1: "members (fst s1) \<subseteq> members (fst st) \<union> set r1"
    using e1 by (auto simp: extends_def r1)
  have new2: "members (fst s2) \<subseteq> members (fst s1) \<union> set r2"
    using e2 by (auto simp: extends_def r2)
  have take: "take (Suc qs) (snd s2) = take qs ?q @ [?x]"
    using qs by (simp add: q2 take_Suc_conv_app_nth)
  have drop: "set (drop (Suc qs) (snd s2)) = set (drop (Suc qs) ?q) \<union> set r1 \<union> set r2"
    using qs by (auto simp: q2)
  have dropq: "set (drop qs ?q) = insert ?x (set (drop (Suc qs) ?q))"
    using qs by (simp add: Cons_nth_drop_Suc [symmetric] del: drop_Suc)
  have qmem: "set ?q \<subseteq> members (fst st)"
    using g by (simp add: good_def)
  show ?thesis
    unfolding closed_upto_def
  proof (intro ballI conjI impI)
    fix x' assume "x' \<in> set (take (Suc qs) (snd s2))"
    then consider "x' \<in> set (take qs ?q)" | "x' = ?x"
      by (auto simp: take)
    then show "omega XOR x' \<in> members (fst s2)"
    proof cases
      case 1
      with c have "omega XOR x' \<in> members (fst st)"
        by (simp add: closed_upto_def)
      with m01 m12 show ?thesis
        by blast
    next
      case 2
      with comp m12 show ?thesis
        by blast
    qed
  next
    fix x' y
    assume x': "x' \<in> set (take (Suc qs) (snd s2))" and y: "y \<in> members (fst s2)"
      and d: "x' AND y = 0"
    from x' consider "x' \<in> set (take qs ?q)" | "x' = ?x"
      by (auto simp: take)
    then show "y \<in> set (drop (Suc qs) (snd s2)) \<or> x' OR y \<in> members (fst s2)"
    proof cases
      case 2
      show ?thesis
      proof (cases "y \<in> members (fst s1)")
        case True
        with cover [of y] d 2 show ?thesis
          by simp
      next
        case False
        with new2 y have "y \<in> set r2"
          by blast
        then show ?thesis
          by (simp add: drop)
      qed
    next
      case 1
      show ?thesis
      proof (cases "y \<in> members (fst st)")
        case False
        with new1 new2 y have "y \<in> set r1 \<union> set r2"
          by blast
        then show ?thesis
          by (auto simp: drop)
      next
        case True
        with c 1 d have "y \<in> set (drop qs ?q) \<or> x' OR y \<in> members (fst st)"
          by (simp add: closed_upto_def)
        then consider "y = ?x" | "y \<in> set (drop (Suc qs) ?q)" | "x' OR y \<in> members (fst st)"
          by (auto simp: dropq)
        then show ?thesis
        proof cases
          case 1
          have "x' \<in> set ?q"
            using \<open>x' \<in> set (take qs ?q)\<close> by (rule in_set_takeD)
          with qmem m01 have "x' \<in> members (fst s1)"
            by blast
          moreover have "?x AND x' = 0"
            using d 1 by (simp add: and.commute)
          ultimately have "?x OR x' \<in> members (fst s2)"
            by (rule cover)
          with 1 show ?thesis
            by (simp add: or.commute)
        next
          case 2
          then show ?thesis
            by (simp add: drop)
        next
          case 3
          with m01 m12 show ?thesis
            by blast
        qed
      qed
    qed
  qed
qed

lemma ec_while_closed:
  assumes "ec_while omega exc qs st = Some (True, st')" and "good st" and "bs_wf exc"
    and "closed_upto omega st qs"
  shows "closed_upto omega st' (length (snd st'))"
  using assms
proof (induction omega exc qs st rule: ec_while.induct)
  case (1 omega exc qs st)
  note g = "1.prems"(2) and wfe = "1.prems"(3)
  show ?case
  proof (cases "qs < length (snd st)")
    case False
    with "1.prems"(1) have "st' = st"
      by (simp add: ec_while.simps [of omega exc qs st])
    with False "1.prems"(4) show ?thesis
      by (auto simp: closed_upto_def)
  next
    case True
    let ?x = "snd st ! qs"
    from True "1.prems"(1) obtain c s1 where
      a: "add_subset exc (omega XOR ?x) st = Some (c, s1)"
      by (cases "add_subset exc (omega XOR ?x) st")
        (auto simp: ec_while.simps [of omega exc qs st] Let_def)
    with True "1.prems"(1) have c: c
      by (auto simp: ec_while.simps [of omega exc qs st] Let_def split: bool.splits)
    with True a "1.prems"(1) obtain c' s2 where
      sw: "scan_words exc ?x 0 s1 = Some (c', s2)"
      by (cases "scan_words exc ?x 0 s1")
        (auto simp: ec_while.simps [of omega exc qs st] Let_def)
    with True a c "1.prems"(1) have c': c'
      and rest: "ec_while omega exc (qs + 1) s2 = Some (True, st')"
      by (auto simp: ec_while.simps [of omega exc qs st] Let_def split: bool.splits)
    note e1 = extends_add [OF a g wfe]
    note g1 = extends_good [OF e1]
    note e2 = scan_words_extends [OF sw g1 wfe]
    note g2 = extends_good [OF e2]
    have comp: "omega XOR ?x \<in> members (fst s1)"
      using add_subset_good(5) [OF a g wfe] c by simp
    have cover: "?x OR y \<in> members (fst s2)" if "y \<in> members (fst s1)" and "?x AND y = 0" for y
      using sw [unfolded c' [THEN eqTrueI]] g1 wfe that(1) _ that(2)
      by (rule scan_words_covers) simp
    have "closed_upto omega s2 (Suc qs)"
      using "1.prems"(4) True e1 e2 comp cover g by (rule closed_upto_step)
    then have "closed_upto omega s2 (qs + 1)"
      by simp
    with rest g2 wfe show ?thesis
      using True a c sw c'
      by (intro "1.IH" [of ?x "omega XOR ?x" "(c, s1)" c s1 "(c', s2)" c' s2]) simp_all
  qed
qed

section \<open>What \<open>extend_closure\<close> returns\<close>

lemma extend_closure_start:
  assumes "bs_wf included" and "extension < 128"
  shows "\<exists>cl0. bs_set (bs_copy included) extension = Some cl0
           \<and> enqueue [] extension = Some [extension]
           \<and> bs_wf cl0 \<and> members cl0 = insert extension (members included)
           \<and> good (cl0, [extension])
           \<and> extend_closure omega included extension excluded =
               map_option (\<lambda>r. (fst r, fst (snd r))) (ec_while omega excluded 0 (cl0, [extension]))"
proof -
  from bs_set_Some [OF assms] obtain cl0 where
    cl0: "bs_set included extension = Some cl0" "bs_wf cl0"
      "members cl0 = insert extension (members included)"
    by blast
  have "enqueue [] extension = Some [extension]"
    by (simp add: enqueue_def MAX_SUBSETS_eq)
  moreover have "extend_closure omega included extension excluded =
               map_option (\<lambda>r. (fst r, fst (snd r))) (ec_while omega excluded 0 (cl0, [extension]))"
    by (cases "ec_while omega excluded 0 (cl0, [extension])")
      (simp_all add: extend_closure_def cl0 enqueue_def MAX_SUBSETS_eq)
  ultimately show ?thesis
    using cl0 by (simp add: good_def)
qed

lemma extend_closure_SomeD:
  assumes "extend_closure omega included extension excluded = Some (b, cl)"
    and "bs_wf included"
  shows "extension < 128 \<and> (\<exists>cl0 q. bs_set (bs_copy included) extension = Some cl0
           \<and> bs_wf cl0 \<and> members cl0 = insert extension (members included)
           \<and> good (cl0, [extension])
           \<and> ec_while omega excluded 0 (cl0, [extension]) = Some (b, cl, q))"
proof -
  have lt: "extension < 128"
  proof (rule ccontr)
    assume "\<not> extension < 128"
    with assms(2) have "bs_set included extension = None"
      by (simp add: bs_set_wf(1))
    with assms(1) show False
      by (simp add: extend_closure_def)
  qed
  from extend_closure_start [OF assms(2) lt, of omega excluded] obtain cl0 where
    cl0: "bs_set (bs_copy included) extension = Some cl0" "bs_wf cl0"
      "members cl0 = insert extension (members included)" "good (cl0, [extension])"
    and e: "extend_closure omega included extension excluded =
               map_option (\<lambda>r. (fst r, fst (snd r))) (ec_while omega excluded 0 (cl0, [extension]))"
    by blast
  from e assms(1) obtain r where
    r: "ec_while omega excluded 0 (cl0, [extension]) = Some r" and "(fst r, fst (snd r)) = (b, cl)"
    by (cases "ec_while omega excluded 0 (cl0, [extension])") auto
  then have "ec_while omega excluded 0 (cl0, [extension]) = Some (b, cl, snd (snd r))"
    by (cases r) auto
  with lt cl0 show ?thesis
    by blast
qed

lemma extend_closure_total:
  assumes "bs_wf included" and "bs_wf excluded" and "omega < 128" and "extension < 128"
  shows "\<exists>b cl. extend_closure omega included extension excluded = Some (b, cl)"
proof -
  from extend_closure_start [OF assms(1,4), of omega excluded] obtain cl0 where
    g: "good (cl0, [extension])"
    and e: "extend_closure omega included extension excluded =
               map_option (\<lambda>r. (fst r, fst (snd r))) (ec_while omega excluded 0 (cl0, [extension]))"
    by blast
  from ec_while_total [OF g assms(2,3), of 0] e show ?thesis
    by auto
qed

text \<open>The queue at the end of the work loop holds what was added to \<open>included\<close>.\<close>

lemma extend_closure_queue:
  assumes "extend_closure omega included extension excluded = Some (b, cl)"
    and "bs_wf included" and "bs_wf excluded"
  shows "\<exists>cl0 q. bs_set (bs_copy included) extension = Some cl0
           \<and> ec_while omega excluded 0 (cl0, [extension]) = Some (b, cl, q)
           \<and> bs_wf cl \<and> distinct q \<and> hd q = extension \<and> q \<noteq> []
           \<and> members cl = members included \<union> set q
           \<and> (b \<longrightarrow> closed_upto omega (cl, q) (length q))"
proof -
  from extend_closure_SomeD [OF assms(1,2)] obtain cl0 q where
    s: "bs_set (bs_copy included) extension = Some cl0"
    and m0: "members cl0 = insert extension (members included)"
    and g: "good (cl0, [extension])"
    and w: "ec_while omega excluded 0 (cl0, [extension]) = Some (b, cl, q)"
    by blast
  note e = ec_while_extends [OF w g assms(3)]
  then obtain r where q: "q = extension # r"
    by (auto simp: extends_def)
  from e have gq: "good (cl, q)"
    by (rule extends_good)
  have "members cl = members included \<union> set q"
    using e gq m0 by (auto simp: extends_def good_def q)
  moreover have "closed_upto omega (cl, q) (length q)" if b
    using ec_while_closed [OF w [unfolded that [THEN eqTrueI]] g assms(3)]
    by (simp add: closed_upto_def)
  ultimately show ?thesis
    using s w gq q by (auto simp: good_def)
qed

lemma extend_closure_closed:
  assumes "extend_closure omega included extension excluded = Some (True, cl)"
    and "bs_wf included" and "bs_wf excluded"
    and "dynkin_closed omega (members included)"
  shows "dynkin_closed omega (members cl)"
proof -
  from extend_closure_queue [OF assms(1-3)] obtain q where
    m: "members cl = members included \<union> set q"
    and c: "closed_upto omega (cl, q) (length q)"
    by auto
  from c have cq: "omega XOR x \<in> members cl"
    "\<And>y. y \<in> members cl \<Longrightarrow> x AND y = 0 \<Longrightarrow> x OR y \<in> members cl" if "x \<in> set q" for x
    using that by (auto simp: closed_upto_def)
  show ?thesis
    unfolding dynkin_closed_def
  proof (intro conjI ballI impI)
    fix s assume "s \<in> members cl"
    with m assms(4) cq(1) show "omega XOR s \<in> members cl"
      by (auto simp: dynkin_closed_def)
  next
    fix x y assume x: "x \<in> members cl" and y: "y \<in> members cl" and d: "x AND y = 0"
    show "x OR y \<in> members cl"
    proof (cases "x \<in> set q")
      case True
      then show ?thesis
        using y d by (rule cq(2))
    next
      case xq: False
      show ?thesis
      proof (cases "y \<in> set q")
        case True
        then have "y OR x \<in> members cl"
          using x d by (intro cq(2)) (simp_all add: and.commute)
        then show ?thesis
          by (simp add: or.commute)
      next
        case False
        with xq x y m have "x \<in> members included" "y \<in> members included"
          by auto
        with assms(4) d have "x OR y \<in> members included"
          by (auto simp: dynkin_closed_def)
        with m show ?thesis
          by simp
      qed
    qed
  qed
qed

lemma extend_closure_least:
  assumes "extend_closure omega included extension excluded = Some (b, cl)"
    and "bs_wf included" and "bs_wf excluded"
    and "members included \<subseteq> D" and "extension \<in> D" and "dynkin_closed omega D"
  shows "members cl \<subseteq> D"
proof -
  from extend_closure_SomeD [OF assms(1,2)] obtain cl0 q where
    m0: "members cl0 = insert extension (members included)"
    and g: "good (cl0, [extension])"
    and w: "ec_while omega excluded 0 (cl0, [extension]) = Some (b, cl, q)"
    by blast
  have "good (cl, q) \<and> members (fst (cl, q)) \<subseteq> D"
  proof (rule ec_while_rule [OF w, where P = "\<lambda>s. good s \<and> members (fst s) \<subseteq> D"], goal_cases)
    case 1
    from g m0 assms(4,5) show ?case
      by simp
  next
    case (2 s)
    then show ?case
      by simp
  next
    case 3
    show ?case
      by fact
  next
    case (4 z s b' s')
    then have gs: "good s" and sub: "members (fst s) \<subseteq> D"
      by simp_all
    from gs have "set (snd s) \<subseteq> members (fst s)"
      by (simp add: good_def)
    with 4(1) sub assms(6) have z: "z \<in> D"
      by (auto simp: forced_def dynkin_closed_def subset_iff)
    from add_subset_cases [OF 4(3) _ assms(3)] gs have "members (fst s') \<subseteq> insert z (members (fst s))"
      by (auto simp: good_def)
    with z sub add_subset_good(1) [OF 4(3) gs assms(3)] show ?case
      by auto
  qed
  then show ?thesis
    by simp
qed

lemma extend_closure_excluded:
  assumes "extend_closure omega included extension excluded = Some (b, cl)"
    and "bs_wf included" and "bs_wf excluded"
  shows "members cl \<inter> members excluded \<subseteq> insert extension (members included)"
proof -
  from extend_closure_SomeD [OF assms(1,2)] obtain cl0 q where
    m0: "members cl0 = insert extension (members included)"
    and g: "good (cl0, [extension])"
    and w: "ec_while omega excluded 0 (cl0, [extension]) = Some (b, cl, q)"
    by blast
  let ?A = "insert extension (members included)"
  have "good (cl, q) \<and> members (fst (cl, q)) \<inter> members excluded \<subseteq> ?A"
  proof (rule ec_while_rule [OF w,
        where P = "\<lambda>s. good s \<and> members (fst s) \<inter> members excluded \<subseteq> ?A"], goal_cases)
    case 1
    from g m0 show ?case
      by auto
  next
    case (2 s)
    then show ?case
      by simp
  next
    case 3
    show ?case
      by fact
  next
    case (4 z s b' s')
    then have gs: "good s" and sub: "members (fst s) \<inter> members excluded \<subseteq> ?A"
      by simp_all
    from add_subset_cases [OF 4(3) _ assms(3)] gs
    have "members (fst s') \<inter> members excluded \<subseteq> members (fst s) \<inter> members excluded"
      by (auto simp: good_def)
    with sub add_subset_good(1) [OF 4(3) gs assms(3)] show ?case
      by auto
  qed
  then show ?thesis
    by simp
qed

text \<open>
  When the work loop reports a contradiction, it does so at a subset that the closure
  rules force, that is not in the closure built so far, and that is marked excluded.
\<close>

lemma scan_list_fails:
  assumes "scan_list exc x ys st = Some (False, st')" and "P st"
    and "\<And>y s b' s'. y \<in> set ys \<Longrightarrow> x AND y = 0 \<Longrightarrow> P s
           \<Longrightarrow> add_subset exc (x OR y) s = Some (b', s') \<Longrightarrow> P s'"
    and "\<And>y s. y \<in> set ys \<Longrightarrow> x AND y = 0 \<Longrightarrow> P s
           \<Longrightarrow> add_subset exc (x OR y) s = Some (False, st') \<Longrightarrow> Q"
  shows Q
  using assms
proof (induction ys arbitrary: st)
  case Nil
  then show ?case
    by simp
next
  case (Cons y ys)
  note step = Cons.prems(3) and fail = Cons.prems(4)
  have rest: Q if "scan_list exc x ys s = Some (False, st')" and "P s" for s
    using that
  proof (rule Cons.IH, goal_cases)
    case (1 y' s1 b' s2)
    then show ?case
      by (intro step [of y' s1 b' s2]) simp_all
  next
    case (2 y' s1)
    then show ?case
      by (intro fail [of y' s1]) simp_all
  qed
  show ?case
  proof (cases "x AND y = 0")
    case False
    with Cons.prems(1,2) rest show ?thesis
      by simp
  next
    case True
    then obtain b' s' where a: "add_subset exc (x OR y) st = Some (b', s')"
      using Cons.prems(1) by (cases "add_subset exc (x OR y) st") auto
    show ?thesis
    proof (cases b')
      case False
      with a True Cons.prems(1) have "add_subset exc (x OR y) st = Some (False, st')"
        by simp
      then show ?thesis
        using fail [OF _ True Cons.prems(2)] by simp
    next
      case b': True
      from a have P': "P s'"
        using step [OF _ True Cons.prems(2)] by simp
      from b' Cons.prems(1) True a have "scan_list exc x ys s' = Some (False, st')"
        by simp
      then show ?thesis
        using P' by (rule rest)
    qed
  qed
qed

lemma scan_words_fails:
  assumes "scan_words exc x w st = Some (False, st')" and "P st"
    and "\<And>s. P s \<Longrightarrow> good s" and "bs_wf exc"
    and "\<And>y s b' s'. y \<in> members (fst s) \<Longrightarrow> x AND y = 0 \<Longrightarrow> P s
           \<Longrightarrow> add_subset exc (x OR y) s = Some (b', s') \<Longrightarrow> P s'"
    and "\<And>y s. y \<in> members (fst s) \<Longrightarrow> x AND y = 0 \<Longrightarrow> P s
           \<Longrightarrow> add_subset exc (x OR y) s = Some (False, st') \<Longrightarrow> Q"
  shows Q
  using assms
proof (induction exc x w st rule: scan_words.induct)
  case (1 exc x w st)
  note Pgood = "1.prems"(3) and wfe = "1.prems"(4) and step = "1.prems"(5)
    and fail = "1.prems"(6)
  note g = Pgood [OF "1.prems"(2)]
  show ?case
  proof (cases "w < BITSET_WORDS")
    case False
    with "1.prems"(1) show ?thesis
      by (simp add: scan_words.simps [of exc x w st])
  next
    case True
    with g have len: "w < length (bits (fst st))"
      by (simp add: good_def bs_wf_def)
    let ?ys = "word_members w (bits (fst st) ! w)"
    let ?P = "\<lambda>s. P s \<and> members (fst st) \<subseteq> members (fst s)"
    from True len "1.prems"(1) obtain c s1 where
      sl: "scan_list exc x ?ys st = Some (c, s1)"
      by (cases "scan_list exc x ?ys st")
        (auto simp: scan_words.simps [of exc x w st] scan_word_eq)
    have P0: "?P st"
      using "1.prems"(2) by simp
    have mem: "y \<in> members (fst s)" if "y \<in> set ?ys" and "?P s" for y s
    proof -
      from that(1) g True have "y \<in> members (fst st)"
        by (simp add: word_members_iff good_def)
      with that(2) show ?thesis
        by blast
    qed
    have st: "?P s'"
      if "y \<in> set ?ys" and "x AND y = 0" and "?P s"
        and "add_subset exc (x OR y) s = Some (b', s')" for y s b' s'
    proof -
      from that(3) have Ps: "P s"
        by blast
      from mem [OF that(1,3)] that(2) Ps that(4) have "P s'"
        by (rule step)
      moreover have "members (fst s) \<subseteq> members (fst s')"
        using that(4) Pgood [OF Ps] wfe by (rule add_subset_good(2))
      ultimately show ?thesis
        using that(3) by blast
    qed
    show ?thesis
    proof (cases c)
      case False
      with True len sl "1.prems"(1) have "s1 = st'"
        by (simp add: scan_words.simps [of exc x w st] scan_word_eq)
      with False sl have sl': "scan_list exc x ?ys st = Some (False, st')"
        by simp
      show ?thesis
      proof (rule scan_list_fails [where P = ?P, OF sl' P0])
        fix y s b' s'
        assume "y \<in> set ?ys" and "x AND y = 0" and "?P s"
          and "add_subset exc (x OR y) s = Some (b', s')"
        then show "?P s'"
          by (rule st)
      next
        fix y s
        assume y: "y \<in> set ?ys" and d: "x AND y = 0" and Ps: "?P s"
          and a: "add_subset exc (x OR y) s = Some (False, st')"
        from mem [OF y Ps] d Ps [THEN conjunct1] a show Q
          by (rule fail)
      qed
    next
      case c: True
      from sl P0 st have "?P s1"
        by (rule scan_list_rule [where P = ?P])
      then have P1: "P s1"
        by blast
      from c True len sl "1.prems"(1)
      have run: "scan_words exc x (w + 1) s1 = Some (False, st')"
        by (simp add: scan_words.simps [of exc x w st] scan_word_eq)
      have sw1: "scan_word exc x w (bits (fst st) ! w) st = Some (c, s1)"
        using sl by (simp add: scan_word_eq)
      show ?thesis
        by (rule "1.IH" [OF True len sw1 refl eqTrueI [OF c] run P1 Pgood wfe step fail])
    qed
  qed
qed

lemma ec_while_fails:
  assumes "ec_while omega exc qs st = Some (False, st')" and "P st"
    and "\<And>s. P s \<Longrightarrow> good s" and "bs_wf exc"
    and "\<And>z s b' s'. forced omega s z \<Longrightarrow> P s
           \<Longrightarrow> add_subset exc z s = Some (b', s') \<Longrightarrow> P s'"
    and "\<And>z s. forced omega s z \<Longrightarrow> P s
           \<Longrightarrow> add_subset exc z s = Some (False, st') \<Longrightarrow> Q"
  shows Q
  using assms
proof (induction omega exc qs st rule: ec_while.induct)
  case (1 omega exc qs st)
  note Pgood = "1.prems"(3) and wfe = "1.prems"(4) and step = "1.prems"(5)
    and fail = "1.prems"(6)
  show ?case
  proof (cases "qs < length (snd st)")
    case False
    with "1.prems"(1) show ?thesis
      by (simp add: ec_while.simps [of omega exc qs st])
  next
    case True
    let ?x = "snd st ! qs"
    let ?P = "\<lambda>s. P s \<and> ?x \<in> set (snd s)"
    from True have xq: "?x \<in> set (snd st)"
      by simp
    from True "1.prems"(1) obtain c s1 where
      a: "add_subset exc (omega XOR ?x) st = Some (c, s1)"
      by (cases "add_subset exc (omega XOR ?x) st")
        (auto simp: ec_while.simps [of omega exc qs st] Let_def)
    have f0: "forced omega st (omega XOR ?x)"
      using xq by (auto simp: forced_def)
    from f0 "1.prems"(2) a have P1: "P s1"
      by (rule step)
    have x1: "?x \<in> set (snd s1)"
      using add_subset_good(3) [OF a Pgood [OF "1.prems"(2)] wfe] xq by auto
    show ?thesis
    proof (cases c)
      case False
      with True a "1.prems"(1) have "s1 = st'"
        by (simp add: ec_while.simps [of omega exc qs st] Let_def)
      with False a have "add_subset exc (omega XOR ?x) st = Some (False, st')"
        by simp
      with f0 "1.prems"(2) show ?thesis
        by (rule fail)
    next
      case c: True
      with True a "1.prems"(1) obtain c' s2 where
        sw: "scan_words exc ?x 0 s1 = Some (c', s2)"
        by (cases "scan_words exc ?x 0 s1")
          (auto simp: ec_while.simps [of omega exc qs st] Let_def)
      have P1': "?P s1"
        using P1 x1 by simp
      have Pg: "good s" if "?P s" for s
        using that by (simp add: Pgood)
      have fc: "forced omega s (?x OR y)"
        if "y \<in> members (fst s)" and "?x AND y = 0" and "?P s" for y s
        using that by (auto simp: forced_def)
      have st: "?P s'"
        if "y \<in> members (fst s)" and "?x AND y = 0" and "?P s"
          and "add_subset exc (?x OR y) s = Some (b', s')" for y s b' s'
      proof -
        from that(3) have Ps: "P s" and xs: "?x \<in> set (snd s)"
          by simp_all
        from fc [OF that(1-3)] Ps that(4) have "P s'"
          by (rule step)
        moreover have "?x \<in> set (snd s')"
          using add_subset_good(3) [OF that(4) Pgood [OF Ps] wfe] xs by auto
        ultimately show ?thesis
          by simp
      qed
      show ?thesis
      proof (cases c')
        case False
        with True a c sw "1.prems"(1) have "s2 = st'"
          by (simp add: ec_while.simps [of omega exc qs st] Let_def)
        with False sw have sw': "scan_words exc ?x 0 s1 = Some (False, st')"
          by simp
        show ?thesis
        proof (rule scan_words_fails [where P = ?P, OF sw' P1' Pg wfe])
          fix y s b' s'
          assume "y \<in> members (fst s)" and "?x AND y = 0" and "?P s"
            and "add_subset exc (?x OR y) s = Some (b', s')"
          then show "?P s'"
            by (rule st)
        next
          fix y s
          assume y: "y \<in> members (fst s)" and d: "?x AND y = 0" and Ps: "?P s"
            and a: "add_subset exc (?x OR y) s = Some (False, st')"
          from fc [OF y d Ps] Ps [THEN conjunct1] a show Q
            by (rule fail)
        qed
      next
        case c': True
        from sw P1' Pg wfe st have "?P s2"
          by (rule scan_words_rule [where P = ?P])
        then have P2: "P s2"
          by simp
        from c' True a c sw "1.prems"(1)
        have run: "ec_while omega exc (qs + 1) s2 = Some (False, st')"
          by (simp add: ec_while.simps [of omega exc qs st] Let_def)
        show ?thesis
          by (rule "1.IH" [OF True refl refl a refl eqTrueI [OF c] sw refl eqTrueI [OF c']
                run P2 Pgood wfe step fail])
      qed
    qed
  qed
qed

lemma dynkin_hull_least:
  "S \<subseteq> D \<Longrightarrow> dynkin_closed omega D \<Longrightarrow> dynkin_hull omega S \<subseteq> D"
  by (auto simp: dynkin_hull_def)

lemma dynkin_hull_forced:
  assumes "forced omega s z" and "good s" and "members (fst s) \<subseteq> dynkin_hull omega S"
  shows "z \<in> dynkin_hull omega S"
  unfolding dynkin_hull_def
proof (intro CollectI allI impI)
  fix D assume D: "S \<subseteq> D \<and> dynkin_closed omega D"
  then have "dynkin_hull omega S \<subseteq> D"
    by (simp add: dynkin_hull_least)
  with assms(3) have sub: "members (fst s) \<subseteq> D"
    by blast
  from assms(2) have "set (snd s) \<subseteq> members (fst s)"
    by (simp add: good_def)
  with assms(1) sub D show "z \<in> D"
    by (auto simp: forced_def dynkin_closed_def subset_iff)
qed

lemma extend_closure_fails:
  assumes "extend_closure omega included extension excluded = Some (False, cl)"
    and "bs_wf included" and "bs_wf excluded"
  shows "\<exists>z. z \<in> members excluded \<and> z \<notin> members cl
           \<and> z \<in> dynkin_hull omega (insert extension (members included))"
proof -
  from extend_closure_SomeD [OF assms(1,2)] obtain cl0 q where
    m0: "members cl0 = insert extension (members included)"
    and g: "good (cl0, [extension])"
    and w: "ec_while omega excluded 0 (cl0, [extension]) = Some (False, cl, q)"
    by blast
  let ?H = "dynkin_hull omega (insert extension (members included))"
  let ?P = "\<lambda>s. good s \<and> members (fst s) \<subseteq> ?H"
  have P0: "?P (cl0, [extension])"
    using g m0 by (auto simp: dynkin_hull_def)
  have Pg: "good s" if "?P s" for s
    using that by simp
  show ?thesis
  proof (rule ec_while_fails [where P = ?P, OF w P0 Pg assms(3)])
    fix z s b' s'
    assume f: "forced omega s z" and Ps: "?P s"
      and a: "add_subset excluded z s = Some (b', s')"
    from Ps have gs: "good s"
      by simp
    from add_subset_cases [OF a _ assms(3)] gs
    have "members (fst s') \<subseteq> insert z (members (fst s))"
      by (auto simp: good_def)
    moreover from f gs Ps have "z \<in> ?H"
      by (intro dynkin_hull_forced [of omega s z]) simp_all
    ultimately show "?P s'"
      using Ps add_subset_good(1) [OF a gs assms(3)] by blast
  next
    fix z s
    assume f: "forced omega s z" and Ps: "?P s"
      and a: "add_subset excluded z s = Some (False, cl, q)"
    from Ps have gs: "good s"
      by simp
    from add_subset_cases [OF a _ assms(3)] gs
    have "z \<in> members excluded" and "z \<notin> members cl"
      by (auto simp: good_def)
    moreover from f gs Ps have "z \<in> ?H"
      by (intro dynkin_hull_forced [of omega s z]) simp_all
    ultimately show "\<exists>z. z \<in> members excluded \<and> z \<notin> members cl \<and> z \<in> ?H"
      by blast
  qed
qed

lemma bs_set_member:
  assumes "idx \<in> members bs"
  shows "bs_set bs idx = Some bs"
proof -
  let ?w = "unat idx div 64" and ?i = "unat idx mod 64"
  from assms have lt: "?w < length (bits bs)" and b: "bit (bits bs ! ?w) ?i"
    by (auto simp: members_def bs_get_eq split: if_splits)
  have "set_bit ?i (bits bs ! ?w) = bits bs ! ?w"
    by (rule bit_eqI) (use b in \<open>auto simp: bit_set_bit_iff\<close>)
  then have "(bits bs)[?w := set_bit ?i (bits bs ! ?w)] = bits bs"
    by simp
  with lt show ?thesis
    by (simp add: bs_set_eq)
qed

lemma scan_list_noop:
  assumes "bs_wf (fst st)" and "bs_wf exc"
    and "\<And>y. y \<in> set ys \<Longrightarrow> x AND y = 0 \<Longrightarrow> x OR y \<in> members (fst st)"
  shows "scan_list exc x ys st = Some (True, st)"
  using assms(3)
proof (induction ys)
  case Nil
  show ?case
    by simp
next
  case (Cons y ys)
  have rest: "scan_list exc x ys st = Some (True, st)"
    by (rule Cons.IH) (rule Cons.prems, auto)
  show ?case
  proof (cases "x AND y = 0")
    case False
    with rest show ?thesis
      by simp
  next
    case True
    then have m: "x OR y \<in> members (fst st)"
      by (intro Cons.prems) simp_all
    with assms(1) have "x OR y < 128"
      by (intro members_bound)
    with m assms(1,2) have "add_subset exc (x OR y) st = Some (True, st)"
      by (cases st) (simp add: add_subset_wf)
    with True rest show ?thesis
      by simp
  qed
qed

lemma scan_words_noop:
  assumes "bs_wf (fst st)" and "bs_wf exc"
    and "\<And>y. y \<in> members (fst st) \<Longrightarrow> x AND y = 0 \<Longrightarrow> x OR y \<in> members (fst st)"
  shows "scan_words exc x w st = Some (True, st)"
  using assms
proof (induction exc x w st rule: scan_words.induct)
  case (1 exc x w st)
  show ?case
  proof (cases "w < BITSET_WORDS")
    case False
    then show ?thesis
      by (simp add: scan_words.simps [of exc x w st])
  next
    case True
    with "1.prems"(1) have len: "w < length (bits (fst st))"
      by (simp add: bs_wf_def)
    let ?ys = "word_members w (bits (fst st) ! w)"
    have sl: "scan_list exc x ?ys st = Some (True, st)"
      using "1.prems"(1,2)
    proof (rule scan_list_noop)
      fix y assume "y \<in> set ?ys" and d: "x AND y = 0"
      with "1.prems"(1) True have "y \<in> members (fst st)"
        by (simp add: word_members_iff)
      then show "x OR y \<in> members (fst st)"
        using d by (rule "1.prems"(3))
    qed
    have "scan_words exc x (w + 1) st = Some (True, st)"
      using True len sl "1.prems"
      by (intro "1.IH" [of "(True, st)" True st]) (simp_all add: scan_word_eq)
    with True len sl show ?thesis
      by (simp add: scan_words.simps [of exc x w st] scan_word_eq)
  qed
qed

lemma ec_while_done:
  assumes "\<not> qs < length (snd st)"
  shows "ec_while omega exc qs st = Some (True, st)"
  using assms by (simp add: ec_while.simps [of omega exc qs st])

lemma extend_closure_member:
  assumes "bs_wf included" and "bs_wf excluded"
    and "dynkin_closed omega (members included)" and "extension \<in> members included"
  shows "extend_closure omega included extension excluded = Some (True, included)"
proof -
  let ?st = "(included, [extension])"
  have s: "bs_set (bs_copy included) extension = Some included"
    using assms(4) by (simp add: bs_set_member)
  have comp: "omega XOR extension \<in> members included"
    using assms(3,4) by (simp add: dynkin_closed_def)
  with assms(1) have "omega XOR extension < 128"
    by (intro members_bound)
  with comp assms(1,2) have a: "add_subset excluded (omega XOR extension) ?st = Some (True, ?st)"
    by (simp add: add_subset_wf)
  have sw: "scan_words excluded extension 0 ?st = Some (True, ?st)"
    using assms(1-4) by (intro scan_words_noop) (auto simp: dynkin_closed_def)
  have "ec_while omega excluded (0 + 1) ?st = Some (True, ?st)"
    by (rule ec_while_done) simp
  with a sw have "ec_while omega excluded 0 ?st = Some (True, ?st)"
    by (simp add: ec_while.simps [of omega excluded 0 ?st])
  with s show ?thesis
    by (simp add: extend_closure_def enqueue_def MAX_SUBSETS_eq)
qed

lemma extend_closure_fresh:
  assumes "extend_closure omega included extension excluded = Some (b, cl)"
    and "bs_wf included" and "bs_wf excluded"
  shows "\<exists>cl0 q. bs_set (bs_copy included) extension = Some cl0
           \<and> ec_while omega excluded 0 (cl0, [extension]) = Some (b, cl, q)
           \<and> set (tl q) \<inter> members included = {}"
proof -
  from extend_closure_SomeD [OF assms(1,2)] obtain cl0 q where
    s: "bs_set (bs_copy included) extension = Some cl0"
    and m0: "members cl0 = insert extension (members included)"
    and g: "good (cl0, [extension])"
    and w: "ec_while omega excluded 0 (cl0, [extension]) = Some (b, cl, q)"
    by blast
  let ?P = "\<lambda>s. good s \<and> snd s \<noteq> [] \<and> members included \<subseteq> members (fst s)
                \<and> set (tl (snd s)) \<inter> members included = {}"
  have "?P (cl, q)"
  proof (rule ec_while_rule [OF w, where P = ?P], goal_cases)
    case 1
    from g m0 show ?case
      by auto
  next
    case (2 s)
    then show ?case
      by simp
  next
    case 3
    show ?case
      by fact
  next
    case (4 z s b' s')
    then have gs: "good s" and ne: "snd s \<noteq> []" and sub: "members included \<subseteq> members (fst s)"
      and d: "set (tl (snd s)) \<inter> members included = {}"
      by simp_all
    from add_subset_cases [OF 4(3) _ assms(3)] gs
    consider "s' = s" | "z \<notin> members (fst s)" "snd s' = snd s @ [z]"
      "members (fst s') = insert z (members (fst s))"
      by (auto simp: good_def)
    then show ?case
    proof cases
      case 1
      with 4(2) show ?thesis
        by simp
    next
      case 2
      with sub have "z \<notin> members included"
        by blast
      with 2 ne d sub add_subset_good(1) [OF 4(3) gs assms(3)] show ?thesis
        by auto
    qed
  qed
  with s w show ?thesis
    by auto
qed

section \<open>One iteration of the enumerator\<close>

lemma unat_limit:
  fixes omega :: uint32_t
  assumes "omega < 128"
  shows "unat (drop_bit 1 (omega + 1) :: uint32_t) = (unat omega + 1) div 2"
proof -
  have "unat (omega + 1) = Suc (unat omega)"
    using assms by (rule unat_succ)
  then show ?thesis
    by (simp add: drop_bit_eq_div unat_div)
qed

lemma limit_le_64:
  fixes omega :: uint32_t
  assumes "omega < 128"
  shows "unat (drop_bit 1 (omega + 1) :: uint32_t) \<le> 64"
proof -
  from assms have "unat omega < 128"
    by (simp add: word_less_nat_alt)
  then have "(unat omega + 1) div 2 \<le> 64"
    by simp
  then show ?thesis
    by (simp only: unat_limit [OF assms])
qed

lemma below_limit:
  fixes omega m :: uint32_t
  assumes "omega < 128" and "m < drop_bit 1 (omega + 1)"
  shows "m < 128" and "unat m < unat omega"
proof -
  from assms(1) have o: "unat omega < 128"
    by (simp add: word_less_nat_alt)
  from assms(2) have "unat m < unat (drop_bit 1 (omega + 1) :: uint32_t)"
    by (simp only: word_less_nat_alt)
  then have "unat m < (unat omega + 1) div 2"
    by (simp only: unat_limit [OF assms(1)])
  with o show "m < 128" and "unat m < unat omega"
    by (simp_all add: word_less_nat_alt)
qed

lemma exclude_commit_Some:
  assumes "bs_wf excluded" and "omega < 128" and "m < 128"
  shows "\<exists>e. exclude_commit omega excluded m = Some e \<and> bs_wf e
           \<and> members e = insert (omega XOR m) (insert m (members excluded))"
proof -
  from bs_set_Some [OF assms(1,3)] obtain e1 where
    e1: "bs_set excluded m = Some e1" "bs_wf e1" "members e1 = insert m (members excluded)"
    by blast
  from bs_set_Some [OF e1(2) xor_less_128 [OF assms(2,3)]] obtain e2 where
    "bs_set e1 (omega XOR m) = Some e2" "bs_wf e2" "members e2 = insert (omega XOR m) (members e1)"
    by blast
  with e1 show ?thesis
    by (simp add: exclude_commit_def)
qed

lemma extend_closure_wf:
  assumes "extend_closure omega included extension excluded = Some (b, cl)"
    and "bs_wf included" and "bs_wf excluded"
  shows "bs_wf cl" and "members included \<subseteq> members cl" and "extension \<in> members cl"
proof -
  from extend_closure_queue [OF assms] obtain q where
    "bs_wf cl" and m: "members cl = members included \<union> set q" and h: "hd q = extension"
    and ne: "q \<noteq> []"
    by blast
  moreover from hd_in_set [OF ne] h have "extension \<in> set q"
    by simp
  ultimately show "bs_wf cl" and "members included \<subseteq> members cl" and "extension \<in> members cl"
    by simp_all
qed

lemma inner_for_unfold:
  assumes "bs_wf included" and "bs_wf excluded" and "omega < 128"
    and "m < drop_bit 1 (omega + 1)"
  shows "inner_for omega m included excluded count =
     (if m \<in> members included \<or> m \<in> members excluded
      then inner_for omega (m + 1) included excluded count
      else (case extend_closure omega included m excluded of
              None \<Rightarrow> None
            | Some r \<Rightarrow>
                (case (if fst r
                       then map_option (\<lambda>sub. count + sub)
                              (inner_for omega (m + 1) (snd r) excluded 1)
                       else Some count) of
                   None \<Rightarrow> None
                 | Some count' \<Rightarrow>
                     inner_for omega (m + 1) included
                       (the (exclude_commit omega excluded m)) count')))"
proof -
  note m = below_limit(1) [OF assms(3,4)]
  from exclude_commit_Some [OF assms(2,3) m] obtain e where
    e: "exclude_commit omega excluded m = Some e"
    by blast
  then obtain e1 where e1: "bs_set excluded m = Some e1" "bs_set e1 (omega XOR m) = Some e"
    by (auto simp: exclude_commit_def split: bind_splits)
  show ?thesis
    using assms(4) m
    by (subst inner_for.simps)
      (auto simp: bs_get_wf [OF assms(1)] bs_get_wf [OF assms(2)] e e1
        split: option.splits bind_splits)
qed

lemma inner_for_done:
  assumes "\<not> m < drop_bit 1 (omega + 1)"
  shows "inner_for omega m included excluded count = Some count"
  using assms by (subst inner_for.simps) simp


section \<open>The count does not wrap around\<close>

text \<open>
  One iteration at index \<open>m\<close>, given a bound \<open>S\<close> on the count of the recursive call and a
  bound \<open>2 ^ k\<close> on what the rest of the loop adds.
\<close>

lemma inner_for_step_bound:
  assumes wf: "bs_wf included" "bs_wf excluded" and om: "omega < 128"
    and m: "m < drop_bit 1 (omega + 1)"
    and sub: "\<And>cl. extend_closure omega included m excluded = Some (True, cl)
        \<Longrightarrow> \<exists>sub. inner_for omega (m + 1) cl excluded 1 = Some sub \<and> unat sub \<le> S"
    and cont: "\<And>exc' count'. bs_wf exc' \<Longrightarrow> unat count' + 2 ^ k \<le> 2 ^ 64
        \<Longrightarrow> \<exists>c. inner_for omega (m + 1) included exc' count' = Some c
              \<and> unat count' \<le> unat c \<and> unat c + 1 \<le> unat count' + 2 ^ k"
    and room: "unat count + S + 2 ^ k \<le> 2 ^ 64"
  shows "\<exists>c. inner_for omega m included excluded count = Some c
           \<and> unat count \<le> unat c \<and> unat c + 1 \<le> unat count + S + 2 ^ k"
proof -
  note m128 = below_limit(1) [OF om m]
  note unfold = inner_for_unfold [OF wf om m, of count]
  from room have room': "unat count + 2 ^ k \<le> 2 ^ 64"
    by linarith
  show ?thesis
  proof (cases "m \<in> members included \<or> m \<in> members excluded")
    case True
    from cont [OF wf(2) room'] True show ?thesis
      by (auto simp: unfold)
  next
    case False
    from extend_closure_total [OF wf om m128] obtain b cl where
      e: "extend_closure omega included m excluded = Some (b, cl)"
      by blast
    from exclude_commit_Some [OF wf(2) om m128] obtain ex where
      ex: "exclude_commit omega excluded m = Some ex" "bs_wf ex"
      by blast
    show ?thesis
    proof (cases b)
      case False
      from cont [OF ex(2) room'] obtain c where
        "inner_for omega (m + 1) included ex count = Some c"
        "unat count \<le> unat c" "unat c + 1 \<le> unat count + 2 ^ k"
        by blast
      with False \<open>\<not> (m \<in> members included \<or> m \<in> members excluded)\<close> e ex show ?thesis
        by (simp add: unfold)
    next
      case True
      from sub [of cl] e True obtain sb where
        sb: "inner_for omega (m + 1) cl excluded 1 = Some sb" "unat sb \<le> S"
        by auto
      have one: "(1::nat) \<le> 2 ^ k"
        by simp
      have "unat count + unat sb < (2::nat) ^ 64"
        using sb(2) room one by linarith
      then have "unat count + unat sb < 2 ^ LENGTH(64)"
        by simp
      then have u: "unat (count + sb) = unat count + unat sb"
        by (simp only: unat_add_lem)
      with sb(2) room have "unat (count + sb) + 2 ^ k \<le> 2 ^ 64"
        by linarith
      from cont [OF ex(2) this] obtain c where
        c: "inner_for omega (m + 1) included ex (count + sb) = Some c"
        "unat (count + sb) \<le> unat c" "unat c + 1 \<le> unat (count + sb) + 2 ^ k"
        by blast
      from c(2,3) u sb(2) have "unat count \<le> unat c" "unat c + 1 \<le> unat count + S + 2 ^ k"
        by linarith+
      with True \<open>\<not> (m \<in> members included \<or> m \<in> members excluded)\<close> e ex sb c(1)
      show ?thesis
        by (simp add: unfold)
    qed
  qed
qed


lemma inner_for_bound:
  fixes omega :: uint32_t
  assumes "bs_wf included" and "bs_wf excluded" and "omega < 128"
    and "unat (drop_bit 1 (omega + 1) :: uint32_t) - unat m \<le> k"
    and "unat count + 2 ^ k \<le> 2 ^ 64"
  shows "\<exists>c. inner_for omega m included excluded count = Some c
           \<and> unat count \<le> unat c \<and> unat c + 1 \<le> unat count + 2 ^ k"
  using assms
proof (induction k arbitrary: m included excluded count)
  case 0
  then have "\<not> m < drop_bit 1 (omega + 1)"
    by (simp add: word_less_nat_alt)
  then show ?case
    by (simp add: inner_for_done)
next
  case (Suc k)
  show ?case
  proof (cases "m < drop_bit 1 (omega + 1)")
    case False
    then show ?thesis
      by (simp add: inner_for_done)
  next
    case True
    then have "unat (m + 1) = Suc (unat m)"
      by (rule unat_succ)
    with Suc.prems(4) have k: "unat (drop_bit 1 (omega + 1) :: uint32_t) - unat (m + 1) \<le> k"
      by simp
    have pow: "(2::nat) ^ Suc k = 2 ^ k + 2 ^ k"
      by simp
    have "\<exists>c. inner_for omega m included excluded count = Some c
           \<and> unat count \<le> unat c \<and> unat c + 1 \<le> unat count + 2 ^ k + 2 ^ k"
      using Suc.prems(1,2,3) True
    proof (rule inner_for_step_bound)
      fix cl assume e: "extend_closure omega included m excluded = Some (True, cl)"
      have "unat (1 :: size_t) + 2 ^ k \<le> 2 ^ 64"
        using Suc.prems(5) unfolding pow by simp
      from Suc.IH [OF extend_closure_wf(1) [OF e Suc.prems(1,2)] Suc.prems(2,3) k this]
      show "\<exists>sub. inner_for omega (m + 1) cl excluded 1 = Some sub \<and> unat sub \<le> 2 ^ k"
        by auto
    next
      fix exc' :: Bitset and count' :: size_t
      assume "bs_wf exc'" and "unat count' + 2 ^ k \<le> 2 ^ 64"
      with Suc.prems(1,3) k
      show "\<exists>c. inner_for omega (m + 1) included exc' count' = Some c
              \<and> unat count' \<le> unat c \<and> unat c + 1 \<le> unat count' + 2 ^ k"
        by (intro Suc.IH)
    next
      show "unat count + 2 ^ k + 2 ^ k \<le> 2 ^ 64"
        using Suc.prems(5) unfolding pow by simp
    qed
    then show ?thesis
      unfolding pow by (simp add: add.assoc)
  qed
qed

lemma extend_closure_union:
  assumes "extend_closure omega included extension excluded = Some (True, cl)"
    and "bs_wf included" and "bs_wf excluded"
    and "y \<in> members cl" and "extension AND y = 0"
  shows "extension OR y \<in> members cl"
proof -
  from extend_closure_queue [OF assms(1-3)] obtain q where
    c: "closed_upto omega (cl, q) (length q)" and h: "hd q = extension" and ne: "q \<noteq> []"
    by blast
  from hd_in_set [OF ne] h have "extension \<in> set q"
    by simp
  with c assms(4,5) show ?thesis
    by (auto simp: closed_upto_def)
qed

section \<open>The base family\<close>

lemma base_included_members:
  assumes "base_included omega = Some included"
  shows "bs_wf included" and "members included = {0, omega}"
proof -
  from assms obtain b0 where b0: "bs_set bs_clear 0 = Some b0" and b1: "bs_set b0 omega = Some included"
    by (auto simp: base_included_def split: bind_splits)
  from bs_set_wf(2) [OF bs_clear_wf b0] have w0: "bs_wf b0" and m0: "members b0 = {0}"
    by simp_all
  from bs_set_wf(2) [OF w0 b1] m0 show "bs_wf included" and "members included = {0, omega}"
    by auto
qed

lemma base_included_total:
  assumes "omega < 128"
  shows "\<exists>included. base_included omega = Some included"
proof -
  from bs_set_Some [OF bs_clear_wf, of 0] obtain b0 where
    b0: "bs_set bs_clear 0 = Some b0" "bs_wf b0"
    by auto
  from bs_set_Some [OF b0(2) assms] b0(1) show ?thesis
    by (auto simp: base_included_def)
qed

lemma base_closed: "dynkin_closed omega {0, omega}"
  by (auto simp: dynkin_closed_def)

lemma base_3: "base_included 3 = Some \<lparr>bits = [9, 0]\<rparr>"
  by code_simp

section \<open>The claims about \<open>extend_closure\<close>\<close>

text \<open>
  C1: let \<open>included\<close> contain the empty set and \<open>omega\<close>, have every member at most
  \<open>omega\<close>, and be closed under complement (\<open>omega XOR s\<close>) and under union of disjoint
  members, and let \<open>extension\<close> be at most \<open>omega\<close>.  If \<open>extend_closure\<close> succeeds, the
  closure it returns contains \<open>included\<close> and \<open>extension\<close>, is closed under complement
  and disjoint union, and is contained in every other family with these properties.
\<close>

theorem extend_closure_minimal:
  assumes "bs_wf included" and "bs_wf excluded"
    and "0 \<in> members included" and "omega \<in> members included"
    and "\<forall>s\<in>members included. s \<le> omega"
    and "dynkin_closed omega (members included)"
    and "extension \<le> omega"
    and "extend_closure omega included extension excluded = Some (True, closure)"
  shows "members included \<subseteq> members closure \<and> extension \<in> members closure
     \<and> dynkin_closed omega (members closure)
     \<and> (\<forall>D. members included \<subseteq> D \<and> extension \<in> D \<and> dynkin_closed omega D
            \<longrightarrow> members closure \<subseteq> D)"
proof -
  from extend_closure_queue [OF assms(8,1,2)] obtain q where
    m: "members closure = members included \<union> set q" and h: "hd q = extension" and ne: "q \<noteq> []"
    by blast
  from hd_in_set [OF ne] h have "extension \<in> set q"
    by simp
  with m have 1: "members included \<subseteq> members closure" and 2: "extension \<in> members closure"
    by simp_all
  have 3: "dynkin_closed omega (members closure)"
    using assms(8,1,2,6) by (rule extend_closure_closed)
  have 4: "members closure \<subseteq> D"
    if "members included \<subseteq> D \<and> extension \<in> D \<and> dynkin_closed omega D" for D
    using assms(8,1,2) that [THEN conjunct1] that [THEN conjunct2, THEN conjunct1]
      that [THEN conjunct2, THEN conjunct2]
    by (rule extend_closure_least)
  from 1 2 3 4 show ?thesis
    by (intro conjI allI impI)
qed

theorem extend_closure_minimal_witness:
  "extend_closure 3 \<lparr>bits = [9, 0]\<rparr> 1 bs_clear = Some (True, \<lparr>bits = [15, 0]\<rparr>)
   \<and> members \<lparr>bits = [9, 0]\<rparr> = {0, 3}
   \<and> members \<lparr>bits = [9, 0]\<rparr> \<subseteq> members \<lparr>bits = [15, 0]\<rparr>
   \<and> 1 \<in> members \<lparr>bits = [15, 0]\<rparr>
   \<and> dynkin_closed 3 (members \<lparr>bits = [15, 0]\<rparr>)
   \<and> members \<lparr>bits = [15, 0]\<rparr> \<subseteq> {0, 1, 2, 3}"
proof -
  note b = base_included_members [OF base_3]
  have e: "extend_closure 3 \<lparr>bits = [9, 0]\<rparr> 1 bs_clear = Some (True, \<lparr>bits = [15, 0]\<rparr>)"
    by code_simp
  have d: "dynkin_closed 3 {0, 1, 2, 3 :: uint32_t}"
    by (simp add: dynkin_closed_def)
  have "members \<lparr>bits = [9, 0]\<rparr> \<subseteq> members \<lparr>bits = [15, 0]\<rparr>
     \<and> 1 \<in> members \<lparr>bits = [15, 0]\<rparr>
     \<and> dynkin_closed 3 (members \<lparr>bits = [15, 0]\<rparr>)
     \<and> (\<forall>D. members \<lparr>bits = [9, 0]\<rparr> \<subseteq> D \<and> 1 \<in> D \<and> dynkin_closed 3 D
          \<longrightarrow> members \<lparr>bits = [15, 0]\<rparr> \<subseteq> D)"
    by (rule extend_closure_minimal [OF b(1) bs_clear_wf _ _ _ _ _ e])
      (simp_all add: b(2) base_closed)
  moreover from this d b(2) have "members \<lparr>bits = [15, 0]\<rparr> \<subseteq> {0, 1, 2, 3}"
    by simp
  ultimately show ?thesis
    using e b(2) by blast
qed

text \<open>
  C6: if \<open>included\<close> contains the empty set and \<open>omega\<close>, has every member at most
  \<open>omega\<close> and is closed under complement and disjoint union, and \<open>extension\<close> is already
  a member of it, then \<open>extend_closure\<close> succeeds and returns \<open>included\<close> unchanged.
\<close>

theorem extend_closure_idempotent:
  assumes "bs_wf included" and "bs_wf excluded"
    and "0 \<in> members included" and "omega \<in> members included"
    and "\<forall>s\<in>members included. s \<le> omega"
    and "dynkin_closed omega (members included)"
    and "extension \<in> members included"
  shows "extend_closure omega included extension excluded = Some (True, included)"
  using assms(1,2,6,7) by (rule extend_closure_member)

theorem extend_closure_idempotent_witness:
  "members \<lparr>bits = [9, 0]\<rparr> = {0, 3}
   \<and> extend_closure 3 \<lparr>bits = [9, 0]\<rparr> 3 bs_clear = Some (True, \<lparr>bits = [9, 0]\<rparr>)"
proof -
  note b = base_included_members [OF base_3]
  have "extend_closure 3 \<lparr>bits = [9, 0]\<rparr> 3 bs_clear = Some (True, \<lparr>bits = [9, 0]\<rparr>)"
    by (rule extend_closure_idempotent [OF b(1) bs_clear_wf])
      (simp_all add: b(2) base_closed)
  with b(2) show ?thesis
    by blast
qed

text \<open>
  C4 as stated: \<open>extend_closure\<close> fails whenever \<open>extension\<close> is marked in \<open>excluded\<close>.
  It does not: with \<open>omega = 3\<close>, \<open>included = {0, 3}\<close> and \<open>excluded = {1}\<close>, extending by
  the excluded subset 1 succeeds and returns \<open>{0, 1, 2, 3}\<close>.
\<close>

theorem extend_closure_excluded_seed:
  "bs_get \<lparr>bits = [2, 0]\<rparr> 1 = Some True
   \<and> extend_closure 3 \<lparr>bits = [9, 0]\<rparr> 1 \<lparr>bits = [2, 0]\<rparr> = Some (True, \<lparr>bits = [15, 0]\<rparr>)"
  by code_simp

text \<open>
  C4 as amended: \<open>extend_closure\<close> does not check the seed \<open>extension\<close> against
  \<open>excluded\<close> (its callers do, before they call it).  Every subset it is about to add
  after the seed, a complement or a disjoint union, is checked against \<open>excluded\<close>
  first, and a hit aborts the whole operation.  For \<open>omega\<close> less than \<^verbatim>\<open>MAX_SUBSETS\<close>
  and \<open>extension\<close> at most \<open>omega\<close> the call returns.  Whenever it returns, the closure
  it has built contains \<open>included\<close> and the seed; if it succeeds, no subset it has added is
  marked in \<open>excluded\<close>; if it fails, a subset that the closure rules force, and that is
  not in the closure built so far, is marked in \<open>excluded\<close>.  When \<open>included\<close> is closed
  under complement and disjoint union, \<open>extend_closure\<close> fails if and only if a subset
  that the rules force into \<open>included\<close> with \<open>extension\<close>, other than the seed and the
  members of \<open>included\<close>, is marked in \<open>excluded\<close>.
\<close>

theorem extend_closure_checks_added:
  assumes "bs_wf included" and "bs_wf excluded"
  shows "(unat omega < MAX_SUBSETS \<and> extension \<le> omega
            \<longrightarrow> (\<exists>b closure. extend_closure omega included extension excluded = Some (b, closure)))
     \<and> (\<forall>b closure. extend_closure omega included extension excluded = Some (b, closure)
          \<longrightarrow> insert extension (members included) \<subseteq> members closure
            \<and> (if b
                 then members closure \<inter> members excluded \<subseteq> insert extension (members included)
                 else \<exists>z. z \<in> members excluded \<and> z \<notin> members closure
                        \<and> z \<in> dynkin_hull omega (insert extension (members included)))
            \<and> (dynkin_closed omega (members included)
                 \<longrightarrow> (b \<longleftrightarrow> dynkin_hull omega (insert extension (members included))
                               \<inter> members excluded
                             \<subseteq> insert extension (members included))))"
proof (intro conjI allI impI)
  assume "unat omega < MAX_SUBSETS \<and> extension \<le> omega"
  then have om: "omega < 128" and "extension \<le> omega"
    by (simp_all add: MAX_SUBSETS_eq word_less_nat_alt)
  then have ex: "extension < 128"
    by simp
  from assms om ex
  show "\<exists>b closure. extend_closure omega included extension excluded = Some (b, closure)"
    by (rule extend_closure_total)
next
  fix b closure
  assume e: "extend_closure omega included extension excluded = Some (b, closure)"
  let ?A = "insert extension (members included)"
  let ?H = "dynkin_hull omega ?A"
  from extend_closure_queue [OF e assms] obtain q where
    m: "members closure = members included \<union> set q" and h: "hd q = extension" and ne: "q \<noteq> []"
    by blast
  from hd_in_set [OF ne] h have "extension \<in> set q"
    by simp
  with m show sub: "?A \<subseteq> members closure"
    by auto
  have good: "members closure \<inter> members excluded \<subseteq> ?A" if b
    using e assms by (rule extend_closure_excluded)
  have bad: "\<exists>z. z \<in> members excluded \<and> z \<notin> members closure \<and> z \<in> ?H" if "\<not> b"
  proof -
    from that e have "extend_closure omega included extension excluded = Some (False, closure)"
      by simp
    from this assms show ?thesis
      by (rule extend_closure_fails)
  qed
  from good bad
  show "if b then members closure \<inter> members excluded \<subseteq> ?A
        else \<exists>z. z \<in> members excluded \<and> z \<notin> members closure \<and> z \<in> ?H"
    by simp
  show "b \<longleftrightarrow> ?H \<inter> members excluded \<subseteq> ?A" if c: "dynkin_closed omega (members included)"
  proof
    assume b
    with e have "extend_closure omega included extension excluded = Some (True, closure)"
      by simp
    from this assms c have "dynkin_closed omega (members closure)"
      by (rule extend_closure_closed)
    with sub have "?H \<subseteq> members closure"
      by (rule dynkin_hull_least)
    with good [OF \<open>b\<close>] show "?H \<inter> members excluded \<subseteq> ?A"
      by blast
  next
    assume r: "?H \<inter> members excluded \<subseteq> ?A"
    show b
    proof (rule ccontr)
      assume "\<not> b"
      from bad [OF this] sub r show False
        by blast
    qed
  qed
qed

theorem extend_closure_checks_added_witness:
  "unat (3 :: uint32_t) < MAX_SUBSETS \<and> (1 :: uint32_t) \<le> 3
   \<and> (\<exists>b closure. extend_closure 3 \<lparr>bits = [9, 0]\<rparr> 1 \<lparr>bits = [4, 0]\<rparr> = Some (b, closure))
   \<and> extend_closure 3 \<lparr>bits = [9, 0]\<rparr> 1 \<lparr>bits = [4, 0]\<rparr> = Some (False, \<lparr>bits = [11, 0]\<rparr>)
   \<and> members \<lparr>bits = [9, 0]\<rparr> = {0, 3}
   \<and> insert 1 (members \<lparr>bits = [9, 0]\<rparr>) \<subseteq> members \<lparr>bits = [11, 0]\<rparr>
   \<and> (\<exists>z. z \<in> members \<lparr>bits = [4, 0]\<rparr> \<and> z \<notin> members \<lparr>bits = [11, 0]\<rparr>
          \<and> z \<in> dynkin_hull 3 (insert 1 (members \<lparr>bits = [9, 0]\<rparr>)))
   \<and> \<not> dynkin_hull 3 (insert 1 (members \<lparr>bits = [9, 0]\<rparr>)) \<inter> members \<lparr>bits = [4, 0]\<rparr>
         \<subseteq> insert 1 (members \<lparr>bits = [9, 0]\<rparr>)"
proof -
  note b = base_included_members [OF base_3]
  have e: "extend_closure 3 \<lparr>bits = [9, 0]\<rparr> 1 \<lparr>bits = [4, 0]\<rparr> = Some (False, \<lparr>bits = [11, 0]\<rparr>)"
    by code_simp
  have wf: "bs_wf \<lparr>bits = [4, 0]\<rparr>"
    by (simp add: bs_wf_def BITSET_WORDS_eq)
  have c: "dynkin_closed 3 (members \<lparr>bits = [9, 0]\<rparr>)"
    by (simp add: b(2) base_closed)
  note t = extend_closure_checks_added [OF b(1) wf, of 3 1, THEN conjunct2, THEN spec, THEN spec,
      THEN mp, OF e]
  from t have "insert 1 (members \<lparr>bits = [9, 0]\<rparr>) \<subseteq> members \<lparr>bits = [11, 0]\<rparr>"
    by (rule conjunct1)
  moreover from t have "\<exists>z. z \<in> members \<lparr>bits = [4, 0]\<rparr> \<and> z \<notin> members \<lparr>bits = [11, 0]\<rparr>
          \<and> z \<in> dynkin_hull 3 (insert 1 (members \<lparr>bits = [9, 0]\<rparr>))"
    by simp
  moreover from t c
  have "\<not> dynkin_hull 3 (insert 1 (members \<lparr>bits = [9, 0]\<rparr>)) \<inter> members \<lparr>bits = [4, 0]\<rparr>
         \<subseteq> insert 1 (members \<lparr>bits = [9, 0]\<rparr>)"
    by blast
  moreover have cap: "unat (3 :: uint32_t) < MAX_SUBSETS \<and> (1 :: uint32_t) \<le> 3"
    by (simp add: MAX_SUBSETS_eq)
  moreover from extend_closure_checks_added [OF b(1) wf, of 3 1, THEN conjunct1, THEN mp, OF cap]
  have "\<exists>b closure. extend_closure 3 \<lparr>bits = [9, 0]\<rparr> 1 \<lparr>bits = [4, 0]\<rparr> = Some (b, closure)" .
  ultimately show ?thesis
    using e b(2) by blast
qed

text \<open>
  C9: let \<open>omega\<close> be less than \<^verbatim>\<open>MAX_SUBSETS\<close>, \<open>extension\<close> at most \<open>omega\<close>, and every
  index marked in \<open>included\<close> and \<open>excluded\<close> at most \<open>omega\<close>.  Then no access of
  \<open>extend_closure\<close> is out of bounds (the model returns a result); the indices written
  to the queue are pairwise different and less than \<^verbatim>\<open>MAX_SUBSETS\<close>, so that \<^verbatim>\<open>qe\<close>, the
  length of the queue, is at most \<^verbatim>\<open>MAX_SUBSETS\<close>; and the bits of the closure are those
  of \<open>included\<close> and the queued indices, none of which after the seed was in \<open>included\<close>.
\<close>

theorem extend_closure_in_bounds:
  assumes "bs_wf included" and "bs_wf excluded"
    and "unat omega < MAX_SUBSETS" and "extension \<le> omega"
    and "\<forall>s\<in>members included. s \<le> omega" and "\<forall>s\<in>members excluded. s \<le> omega"
  shows "\<exists>cl0 b closure queue.
      bs_set (bs_copy included) extension = Some cl0
      \<and> enqueue [] extension = Some [extension]
      \<and> ec_while omega excluded 0 (cl0, [extension]) = Some (b, closure, queue)
      \<and> extend_closure omega included extension excluded = Some (b, closure)
      \<and> distinct queue \<and> (\<forall>z\<in>set queue. unat z < MAX_SUBSETS)
      \<and> length queue \<le> MAX_SUBSETS
      \<and> members closure = members included \<union> set queue
      \<and> set (tl queue) \<inter> members included = {}"
proof -
  have om: "omega < 128"
    using assms(3) by (simp add: MAX_SUBSETS_eq word_less_nat_alt)
  with assms(4) have ex: "extension < 128"
    by simp
  from extend_closure_total [OF assms(1,2) om ex] obtain b closure where
    e: "extend_closure omega included extension excluded = Some (b, closure)"
    by blast
  from extend_closure_queue [OF e assms(1,2)] obtain cl0 queue where
    s: "bs_set (bs_copy included) extension = Some cl0"
    and w: "ec_while omega excluded 0 (cl0, [extension]) = Some (b, closure, queue)"
    and wf: "bs_wf closure" and d: "distinct queue"
    and m: "members closure = members included \<union> set queue"
    by blast
  from extend_closure_fresh [OF e assms(1,2)] s w
  have f: "set (tl queue) \<inter> members included = {}"
    by auto
  have lt: "z < 128" if "z \<in> set queue" for z
    using that m members_bound [OF wf, of z] by simp
  then have "\<forall>z\<in>set queue. unat z < MAX_SUBSETS"
    by (auto simp: MAX_SUBSETS_eq word_less_nat_alt)
  moreover have "length queue \<le> MAX_SUBSETS"
    using small_indices_card [OF d lt] by (simp add: MAX_SUBSETS_eq)
  moreover have "enqueue [] extension = Some [extension]"
    by (simp add: enqueue_def MAX_SUBSETS_eq)
  ultimately show ?thesis
    using s w e d m f by blast
qed

theorem extend_closure_in_bounds_witness:
  "unat (3 :: uint32_t) < MAX_SUBSETS \<and> (1 :: uint32_t) \<le> 3
   \<and> members \<lparr>bits = [9, 0]\<rparr> = {0, 3}
   \<and> (\<exists>cl0 b closure queue.
      bs_set (bs_copy \<lparr>bits = [9, 0]\<rparr>) 1 = Some cl0
      \<and> enqueue [] 1 = Some [1]
      \<and> ec_while 3 bs_clear 0 (cl0, [1]) = Some (b, closure, queue)
      \<and> extend_closure 3 \<lparr>bits = [9, 0]\<rparr> 1 bs_clear = Some (b, closure)
      \<and> distinct queue \<and> (\<forall>z\<in>set queue. unat z < MAX_SUBSETS)
      \<and> length queue \<le> MAX_SUBSETS
      \<and> members closure = members \<lparr>bits = [9, 0]\<rparr> \<union> set queue
      \<and> set (tl queue) \<inter> members \<lparr>bits = [9, 0]\<rparr> = {})"
proof -
  note b = base_included_members [OF base_3]
  have 1: "unat (3 :: uint32_t) < MAX_SUBSETS" and 2: "(1 :: uint32_t) \<le> 3"
    by (simp_all add: MAX_SUBSETS_eq)
  have 3: "\<forall>s\<in>members \<lparr>bits = [9, 0]\<rparr>. s \<le> 3" and 4: "\<forall>s\<in>members bs_clear. s \<le> (3 :: uint32_t)"
    by (simp_all add: b(2))
  from extend_closure_in_bounds [OF b(1) bs_clear_wf 1 2 3 4] 1 2 b(2) show ?thesis
    by blast
qed

section \<open>Termination of the enumerator\<close>

lemma inner_for_rel_wf: "wfp inner_for_rel"
proof -
  have "{(y, x). inner_for_rel y x} \<subseteq> measure inner_measure"
    by (auto dest: inner_for_rel_decreases)
  then have "wf {(y, x). inner_for_rel y x}"
    by (rule wf_subset [OF wf_measure])
  then show ?thesis
    by (simp only: wfp_def)
qed

text \<open>
  C10: \<open>inner\<close> terminates on every input.  Every call that the loop of \<open>inner\<close> makes
  from index \<open>m\<close>, the next iteration and the recursive call alike, is at index
  \<open>m + 1\<close> with \<open>m\<close> below the midpoint, so the measure
  \<open>(omega + 1) / 2 - m\<close> strictly decreases; every input is in the domain on which
  the recursion is well founded.
\<close>

theorem inner_terminates:
  "inner_for_dom (omega, lb, included, excluded, count)
   \<and> (\<forall>call. inner_for_rel call (omega, lb, included, excluded, count)
        \<longrightarrow> inner_measure call < inner_measure (omega, lb, included, excluded, count))"
  using inner_for_rel_wf by (auto dest: inner_for_rel_decreases accp_wfpD)

theorem inner_terminates_witness:
  "inner_for_dom (7, 1, \<lparr>bits = [129, 0]\<rparr>, bs_clear, 1)
   \<and> inner_for_rel (7, 1 + 1, bs_copy \<lparr>bits = [195, 0]\<rparr>, bs_copy bs_clear, 1)
         (7, 1, \<lparr>bits = [129, 0]\<rparr>, bs_clear, 1)
   \<and> inner_measure (7, 1 + 1, bs_copy \<lparr>bits = [195, 0]\<rparr>, bs_copy bs_clear, 1)
       < inner_measure (7, 1, \<lparr>bits = [129, 0]\<rparr>, bs_clear, 1)"
proof -
  have e: "extend_closure 7 \<lparr>bits = [129, 0]\<rparr> 1 bs_clear = Some (True, \<lparr>bits = [195, 0]\<rparr>)"
    by code_simp
  have r: "inner_for_rel (7, 1 + 1, bs_copy (snd (True, \<lparr>bits = [195, 0]\<rparr>)), bs_copy bs_clear, 1)
         (7, 1, \<lparr>bits = [129, 0]\<rparr>, bs_clear, 1)"
  proof (rule inner_for_rel.intros(2) [OF _ _ _ _ e])
    show "(1 :: uint32_t) < drop_bit 1 (7 + 1)"
      by simp
    show "bs_get \<lparr>bits = [129, 0]\<rparr> 1 = Some False"
      by code_simp
    show "(if False then Some True else bs_get bs_clear 1) = Some False"
      by code_simp
  qed simp_all
  with inner_terminates [of 7 1 "\<lparr>bits = [129, 0]\<rparr>" bs_clear 1] show ?thesis
    by auto
qed

section \<open>The corner where the bound is tight\<close>

text \<open>
  With \<open>omega = 127\<close> and the loop started at index 0 the bound \<open>2 ^ 64\<close> of
  \<open>inner_for_bound\<close> is one too many.  There the branch that takes 0, 1 and 2 into the
  system has 3 in its closure, which makes the count smaller.
\<close>

lemma limit_127: "unat (drop_bit 1 ((127 :: uint32_t) + 1) :: uint32_t) = 64"
  by simp

lemma corner_2:
  assumes "bs_wf included" and "bs_wf excluded" and "1 \<in> members included"
  shows "\<exists>c. inner_for 127 (1 + 1) included excluded 1 = Some c \<and> unat c \<le> 2 ^ 60 + 2 ^ 61"
proof -
  have "\<exists>c. inner_for 127 2 included excluded 1 = Some c
           \<and> unat (1 :: size_t) \<le> unat c \<and> unat c + 1 \<le> unat (1 :: size_t) + 2 ^ 60 + 2 ^ 61"
    using assms(1,2)
  proof (rule inner_for_step_bound)
    show "(127 :: uint32_t) < 128" and "(2 :: uint32_t) < drop_bit 1 (127 + 1)"
      by simp_all
  next
    fix cl assume e: "extend_closure 127 included 2 excluded = Some (True, cl)"
    note w = extend_closure_wf [OF e assms(1,2)]
    from w(2) assms(3) have "1 \<in> members cl"
      by blast
    with e assms(1,2) have "2 OR 1 \<in> members cl"
      by (rule extend_closure_union) simp
    then have 3: "3 \<in> members cl"
      by simp
    have "inner_for 127 3 cl excluded 1 = inner_for 127 (3 + 1) cl excluded 1"
      using 3 by (subst inner_for_unfold [OF w(1) assms(2)]) simp_all
    moreover have "\<exists>c. inner_for 127 (3 + 1) cl excluded 1 = Some c
           \<and> unat (1 :: size_t) \<le> unat c \<and> unat c + 1 \<le> unat (1 :: size_t) + 2 ^ 60"
      using w(1) assms(2) by (rule inner_for_bound) simp_all
    ultimately show "\<exists>sub. inner_for 127 (2 + 1) cl excluded 1 = Some sub \<and> unat sub \<le> 2 ^ 60"
      by auto
  next
    fix exc' :: Bitset and count' :: size_t
    assume "bs_wf exc'" and "unat count' + 2 ^ 61 \<le> 2 ^ 64"
    with assms(1) show "\<exists>c. inner_for 127 (2 + 1) included exc' count' = Some c
              \<and> unat count' \<le> unat c \<and> unat c + 1 \<le> unat count' + 2 ^ 61"
      by (intro inner_for_bound) simp_all
  next
    show "unat (1 :: size_t) + 2 ^ 60 + 2 ^ 61 \<le> 2 ^ 64"
      by simp
  qed
  then show ?thesis
    by auto
qed

lemma corner_1:
  assumes "bs_wf included" and "bs_wf excluded"
  shows "\<exists>c. inner_for 127 (0 + 1) included excluded 1 = Some c
           \<and> unat c \<le> 2 ^ 60 + 2 ^ 61 + 2 ^ 62"
proof -
  have "\<exists>c. inner_for 127 1 included excluded 1 = Some c
           \<and> unat (1 :: size_t) \<le> unat c
           \<and> unat c + 1 \<le> unat (1 :: size_t) + (2 ^ 60 + 2 ^ 61) + 2 ^ 62"
    using assms(1,2)
  proof (rule inner_for_step_bound)
    show "(127 :: uint32_t) < 128" and "(1 :: uint32_t) < drop_bit 1 (127 + 1)"
      by simp_all
  next
    fix cl assume e: "extend_closure 127 included 1 excluded = Some (True, cl)"
    note w = extend_closure_wf [OF e assms(1,2)]
    from corner_2 [OF w(1) assms(2) w(3)]
    show "\<exists>sub. inner_for 127 (1 + 1) cl excluded 1 = Some sub \<and> unat sub \<le> 2 ^ 60 + 2 ^ 61"
      .
  next
    fix exc' :: Bitset and count' :: size_t
    assume "bs_wf exc'" and "unat count' + 2 ^ 62 \<le> 2 ^ 64"
    with assms(1) show "\<exists>c. inner_for 127 (1 + 1) included exc' count' = Some c
              \<and> unat count' \<le> unat c \<and> unat c + 1 \<le> unat count' + 2 ^ 62"
      by (intro inner_for_bound) simp_all
  next
    show "unat (1 :: size_t) + (2 ^ 60 + 2 ^ 61) + 2 ^ 62 \<le> 2 ^ 64"
      by simp
  qed
  then show ?thesis
    by auto
qed

lemma corner_0:
  assumes "bs_wf included" and "bs_wf excluded"
  shows "\<exists>c. inner_for 127 0 included excluded 1 = Some c \<and> 1 \<le> unat c"
proof -
  have "\<exists>c. inner_for 127 0 included excluded 1 = Some c
           \<and> unat (1 :: size_t) \<le> unat c
           \<and> unat c + 1 \<le> unat (1 :: size_t) + (2 ^ 60 + 2 ^ 61 + 2 ^ 62) + 2 ^ 63"
    using assms(1,2)
  proof (rule inner_for_step_bound)
    show "(127 :: uint32_t) < 128" and "(0 :: uint32_t) < drop_bit 1 (127 + 1)"
      by simp_all
  next
    fix cl assume e: "extend_closure 127 included 0 excluded = Some (True, cl)"
    note w = extend_closure_wf [OF e assms(1,2)]
    from corner_1 [OF w(1) assms(2)]
    show "\<exists>sub. inner_for 127 (0 + 1) cl excluded 1 = Some sub
            \<and> unat sub \<le> 2 ^ 60 + 2 ^ 61 + 2 ^ 62"
      .
  next
    fix exc' :: Bitset and count' :: size_t
    assume "bs_wf exc'" and "unat count' + 2 ^ 63 \<le> 2 ^ 64"
    with assms(1) show "\<exists>c. inner_for 127 (0 + 1) included exc' count' = Some c
              \<and> unat count' \<le> unat c \<and> unat c + 1 \<le> unat count' + 2 ^ 63"
      by (intro inner_for_bound) simp_all
  next
    show "unat (1 :: size_t) + (2 ^ 60 + 2 ^ 61 + 2 ^ 62) + 2 ^ 63 \<le> 2 ^ 64"
      by simp
  qed
  then show ?thesis
    by auto
qed

lemma inner_total:
  assumes "bs_wf included" and "bs_wf excluded" and "omega < 128"
  shows "\<exists>count. inner omega lb included excluded = Some count \<and> 1 \<le> count"
proof (cases "unat (drop_bit 1 (omega + 1) :: uint32_t) - unat lb \<le> 63")
  case True
  have "\<exists>c. inner_for omega lb included excluded 1 = Some c
           \<and> unat (1 :: size_t) \<le> unat c \<and> unat c + 1 \<le> unat (1 :: size_t) + 2 ^ 63"
    using assms True by (rule inner_for_bound) simp
  then show ?thesis
    by (auto simp: inner_def word_le_nat_alt)
next
  case False
  with limit_le_64 [OF assms(3)] have l: "unat (drop_bit 1 (omega + 1) :: uint32_t) = 64"
    and lb: "unat lb = 0"
    by simp_all
  from l have "(unat omega + 1) div 2 = 64"
    by (simp only: unat_limit [OF assms(3)])
  moreover from assms(3) have "unat omega < 128"
    by (simp add: word_less_nat_alt)
  ultimately have "unat omega = unat (127 :: uint32_t)"
    by simp
  then have "omega = 127"
    by (simp only: word_unat_eq_iff)
  moreover from lb have "lb = 0"
    by (simp add: unat_eq_0)
  ultimately show ?thesis
    using corner_0 [OF assms(1,2)] by (auto simp: inner_def word_le_nat_alt)
qed

section \<open>The count is at least one\<close>

text \<open>
  C8 as stated: for every \<open>omega\<close>, \<open>included\<close>, \<open>excluded\<close> and \<open>lower_bound\<close>,
  \<open>inner\<close> returns a count of at least 1.  For \<open>omega = 255\<close> it does not return a
  count: the first closure extension reads \<^verbatim>\<open>bits[3]\<close> of a bitset of
  \<^verbatim>\<open>BITSET_WORDS = 2\<close> words.
\<close>

theorem inner_out_of_bounds:
  "inner 255 0 bs_clear bs_clear = None"
  by code_simp

text \<open>
  C8 as amended: for every \<open>omega\<close> below \<^verbatim>\<open>MAX_SUBSETS\<close> and all bitsets \<open>included\<close>
  and \<open>excluded\<close>, \<open>inner\<close> returns a count of at least 1 (the 64-bit count does not
  wrap around to 0); and for every \<open>omega\<close>, whenever \<open>lower_bound\<close> is at least the
  midpoint \<open>(omega + 1) / 2\<close> the loop body never executes and \<open>inner\<close> returns
  exactly 1.
\<close>

theorem inner_at_least_one:
  "(bs_wf included \<and> bs_wf excluded \<and> unat omega < MAX_SUBSETS
      \<longrightarrow> (\<exists>count. inner omega lb included excluded = Some count \<and> 1 \<le> count))
   \<and> (drop_bit 1 (omega + 1) \<le> lb \<longrightarrow> inner omega lb included excluded = Some 1)"
proof (intro conjI impI)
  assume "bs_wf included \<and> bs_wf excluded \<and> unat omega < MAX_SUBSETS"
  then have "bs_wf included" and "bs_wf excluded" and "omega < 128"
    by (simp_all add: MAX_SUBSETS_eq word_less_nat_alt)
  then show "\<exists>count. inner omega lb included excluded = Some count \<and> 1 \<le> count"
    by (rule inner_total)
next
  assume "drop_bit 1 (omega + 1) \<le> lb"
  then have "\<not> lb < drop_bit 1 (omega + 1)"
    by simp
  then show "inner omega lb included excluded = Some 1"
    unfolding inner_def by (rule inner_for_done)
qed

theorem inner_at_least_one_witness:
  "(\<exists>count. inner 3 1 \<lparr>bits = [9, 0]\<rparr> bs_clear = Some count \<and> 1 \<le> count)
   \<and> drop_bit 1 ((3 :: uint32_t) + 1) \<le> (2 :: uint32_t)
   \<and> inner 3 2 \<lparr>bits = [9, 0]\<rparr> bs_clear = Some 1"
proof -
  have w: "bs_wf \<lparr>bits = [9, 0]\<rparr> \<and> bs_wf bs_clear \<and> unat (3 :: uint32_t) < MAX_SUBSETS"
    by (simp add: bs_wf_def BITSET_WORDS_eq MAX_SUBSETS_eq bs_clear_def)
  have l: "drop_bit 1 ((3 :: uint32_t) + 1) \<le> (2 :: uint32_t)"
    by simp
  from inner_at_least_one [of "\<lparr>bits = [9, 0]\<rparr>" bs_clear 3 1] w
    inner_at_least_one [of "\<lparr>bits = [9, 0]\<rparr>" bs_clear 3 2] l
  show ?thesis
    by blast
qed

section \<open>The precomputed array \<open>root_excluded\<close>\<close>

lemma of_nat_unat_32: "(of_nat (unat (m :: uint32_t)) :: uint32_t) = m"
  by simp

lemma fill_root_excluded_filled:
  fixes omega limit m :: uint32_t
  assumes "filled omega arr (unat m)" and "length arr = unat limit" and "1 \<le> unat m"
    and "omega < 128" and "unat limit \<le> 64" and "unat limit - unat m \<le> k"
    and "\<And>j. j < unat m \<Longrightarrow> bs_wf (arr ! j)"
  shows "\<exists>arr'. fill_root_excluded omega limit m arr = Some arr' \<and> length arr' = unat limit
           \<and> filled omega arr' (unat limit) \<and> (\<forall>j < unat limit. bs_wf (arr' ! j))"
  using assms
proof (induction k arbitrary: m arr)
  case 0
  then have ge: "\<not> m < limit" and "unat limit \<le> unat m"
    by (simp_all add: word_less_nat_alt)
  with 0 have "unat m = unat limit"
    by (simp add: filled_def)
  with 0 ge show ?case
    by (simp add: fill_root_excluded.simps [of omega limit m arr])
next
  case (Suc k)
  show ?case
  proof (cases "m < limit")
    case False
    then have "unat limit \<le> unat m"
      by (simp add: word_less_nat_alt)
    with Suc.prems have "unat m = unat limit"
      by (simp add: filled_def)
    with Suc.prems False show ?thesis
      by (simp add: fill_root_excluded.simps [of omega limit m arr])
  next
    case True
    then have lt: "unat m < unat limit"
      by (simp add: word_less_nat_alt)
    have suc: "unat (m + 1) = Suc (unat m)"
      using True by (rule unat_succ)
    from Suc.prems(3) have pred: "unat (m - 1) = unat m - 1"
      by (simp add: unat_minus_one unat_eq_0 [symmetric] del: unat_eq_0)
    let ?prev = "arr ! (unat m - 1)"
    have ld: "load arr (m - 1) = Some ?prev"
      using lt Suc.prems(2) by (simp add: load_def pred)
    have wfp: "bs_wf ?prev"
      using Suc.prems(3) by (intro Suc.prems(7)) simp
    have m128: "m < 128"
      using lt Suc.prems(5) by (simp add: word_less_nat_alt)
    from exclude_commit_Some [OF wfp Suc.prems(4) m128] obtain e where
      e: "exclude_commit omega ?prev m = Some e" "bs_wf e"
      by blast
    let ?arr = "arr[unat m := e]"
    have st: "store arr m e = Some ?arr"
      using lt Suc.prems(2) by (simp add: store_def)
    have step: "fill_root_excluded omega limit m arr = fill_root_excluded omega limit (m + 1) ?arr"
      using True ld st e(1)
      by (subst fill_root_excluded.simps)
        (auto simp: exclude_commit_def split: bind_splits)
    have f: "filled omega ?arr (unat (m + 1))"
      unfolding filled_def suc
    proof (intro conjI allI impI)
      show "Suc (unat m) \<le> length ?arr"
        using lt Suc.prems(2) by simp
      show "?arr ! 0 = bs_clear"
        using Suc.prems(1,3) by (simp add: filled_def)
      fix j assume j: "Suc j < Suc (unat m)"
      show "exclude_commit omega (?arr ! j) (of_nat (Suc j)) = Some (?arr ! Suc j)"
      proof (cases "Suc j = unat m")
        case True
        then have "(of_nat (Suc j) :: uint32_t) = m"
          by (simp only: of_nat_unat_32)
        moreover from True have "j = unat m - 1"
          by simp
        ultimately show ?thesis
          using e(1) True lt Suc.prems(2) by simp
      next
        case False
        with j have "Suc j < unat m"
          by simp
        with Suc.prems(1) show ?thesis
          by (simp add: filled_def)
      qed
    qed
    have w: "bs_wf (?arr ! j)" if "j < unat (m + 1)" for j
      using that e(2) Suc.prems(7) [of j] lt Suc.prems(2)
      by (cases "j = unat m") (simp_all add: suc)
    have "\<exists>arr'. fill_root_excluded omega limit (m + 1) ?arr = Some arr'
           \<and> length arr' = unat limit
           \<and> filled omega arr' (unat limit) \<and> (\<forall>j < unat limit. bs_wf (arr' ! j))"
      using f _ _ Suc.prems(4,5) _ w
      by (rule Suc.IH) (use Suc.prems(2,6) suc in simp_all)
    with step show ?thesis
      by simp
  qed
qed

lemma root_excluded_filled:
  fixes omega limit :: uint32_t
  assumes "omega < 128" and "unat limit \<le> 64" and "limit \<noteq> 0"
  shows "\<exists>arr. root_excluded omega limit = Some arr \<and> length arr = unat limit
           \<and> filled omega arr (unat limit) \<and> (\<forall>j < unat limit. bs_wf (arr ! j))"
proof -
  let ?arr = "(replicate (unat limit) bs_clear)[unat (0 :: uint32_t) := bs_clear]"
  from assms(3) have pos: "0 < unat limit"
    by (simp add: unat_gt_0)
  then have st: "store (replicate (unat limit) bs_clear) 0 bs_clear = Some ?arr"
    by (simp add: store_def)
  have "\<exists>arr'. fill_root_excluded omega limit 1 ?arr = Some arr' \<and> length arr' = unat limit
           \<and> filled omega arr' (unat limit) \<and> (\<forall>j < unat limit. bs_wf (arr' ! j))"
  proof (rule fill_root_excluded_filled [where k = "unat limit"])
    show "filled omega ?arr (unat (1 :: uint32_t))"
      using pos by (simp add: filled_def)
    show "bs_wf (?arr ! j)" if "j < unat (1 :: uint32_t)" for j
      using that pos by simp
  qed (use assms pos in simp_all)
  with st show ?thesis
    by (simp add: root_excluded_def)
qed

lemma marks_Suc:
  "marks omega (Suc k) = insert (omega XOR of_nat (Suc k)) (insert (of_nat (Suc k)) (marks omega k))"
  by (auto simp: marks_def atLeastAtMostSuc_conv)

lemma unat_of_nat_small:
  assumes "n < 128"
  shows "unat (of_nat n :: uint32_t) = n" and "(of_nat n :: uint32_t) < 128"
proof -
  show u: "unat (of_nat n :: uint32_t) = n"
    using assms by (simp add: unat_of_nat)
  show "(of_nat n :: uint32_t) < 128"
    unfolding word_less_nat_alt u using assms by simp
qed

lemma filled_members:
  assumes "filled omega arr n" and "k < n" and "omega < 128" and "n \<le> 64"
  shows "bs_wf (arr ! k) \<and> members (arr ! k) = marks omega k"
  using assms(2)
proof (induction k)
  case 0
  with assms(1) show ?case
    by (simp add: filled_def marks_def)
next
  case (Suc k)
  then have IH: "bs_wf (arr ! k)" "members (arr ! k) = marks omega k"
    by simp_all
  from Suc.prems assms(1) have c: "exclude_commit omega (arr ! k) (of_nat (Suc k)) = Some (arr ! Suc k)"
    by (simp add: filled_def)
  from Suc.prems assms(4) have "Suc k < 128"
    by simp
  then have "(of_nat (Suc k) :: uint32_t) < 128"
    by (rule unat_of_nat_small(2))
  from exclude_commit_Some [OF IH(1) assms(3) this] c IH(2) show ?case
    by (auto simp: marks_Suc)
qed

section \<open>Marks of \<open>excluded\<close> on members of \<open>included\<close> are never read\<close>

lemma agree_outside_mono:
  "agree_outside D exc exc' \<Longrightarrow> D \<subseteq> D' \<Longrightarrow> agree_outside D' exc exc'"
  by (auto simp: agree_outside_def)

lemma add_subset_agree:
  assumes "agree_outside D exc exc'" and "good st" and "D \<subseteq> members (fst st)"
  shows "add_subset exc z st = add_subset exc' z st"
proof -
  obtain cl q where st: "st = (cl, q)"
    by (cases st)
  from assms(2) have wf: "bs_wf cl"
    by (simp add: good_def st)
  from assms(1) have we: "bs_wf exc" "bs_wf exc'"
    by (simp_all add: agree_outside_def)
  have "z \<in> members exc \<longleftrightarrow> z \<in> members exc'" if "z \<notin> members cl"
    using that assms(1,3) by (auto simp: agree_outside_def st)
  then show ?thesis
    by (simp add: st add_subset_wf [OF wf we(1)] add_subset_wf [OF wf we(2)])
qed

lemma scan_list_agree:
  assumes "agree_outside D exc exc'" and "good st" and "D \<subseteq> members (fst st)"
  shows "scan_list exc x ys st = scan_list exc' x ys st"
  using assms(2,3)
proof (induction ys arbitrary: st)
  case Nil
  show ?case
    by simp
next
  case (Cons y ys)
  note a = add_subset_agree [OF assms(1) Cons.prems, of "x OR y"]
  from assms(1) have we: "bs_wf exc"
    by (simp add: agree_outside_def)
  show ?case
  proof (cases "add_subset exc (x OR y) st")
    case None
    moreover from None a have "add_subset exc' (x OR y) st = None"
      by simp
    ultimately show ?thesis
      using Cons.IH [OF Cons.prems] by simp
  next
    case (Some r)
    obtain b s where r: "r = (b, s)"
      by (cases r)
    note g = add_subset_good [OF Some [unfolded r] Cons.prems(1) we]
    from g(2) Cons.prems(2) have "D \<subseteq> members (fst s)"
      by blast
    with g(1) have "scan_list exc x ys s = scan_list exc' x ys s"
      by (rule Cons.IH)
    moreover have "add_subset exc (x OR y) st = Some (b, s)"
      "add_subset exc' (x OR y) st = Some (b, s)"
      using a Some r by simp_all
    ultimately show ?thesis
      using Cons.IH [OF Cons.prems] by (cases b) simp_all
  qed
qed

lemma scan_words_agree:
  assumes "agree_outside D exc exc'" and "good st" and "D \<subseteq> members (fst st)"
  shows "scan_words exc x w st = scan_words exc' x w st"
  using assms
proof (induction exc x w st rule: scan_words.induct)
  case (1 exc x w st)
  from "1.prems"(1) have we: "bs_wf exc"
    by (simp add: agree_outside_def)
  let ?word = "bits (fst st) ! w"
  note sl = scan_list_agree [OF "1.prems", of x "word_members w ?word"]
  show ?case
  proof (cases "w < BITSET_WORDS \<and> w < length (bits (fst st))")
    case False
    then show ?thesis
      by (auto simp: scan_words.simps [of exc x w st] scan_words.simps [of exc' x w st])
  next
    case True
    show ?thesis
    proof (cases "scan_list exc x (word_members w ?word) st")
      case None
      moreover from None sl have "scan_list exc' x (word_members w ?word) st = None"
        by simp
      ultimately show ?thesis
        using True
        by (simp add: scan_words.simps [of exc x w st] scan_words.simps [of exc' x w st]
            scan_word_eq)
    next
      case (Some r)
      obtain c s1 where r: "r = (c, s1)"
        by (cases r)
      from Some r sl have sl1: "scan_list exc x (word_members w ?word) st = Some (c, s1)"
        and sl2: "scan_list exc' x (word_members w ?word) st = Some (c, s1)"
        by simp_all
      note e = scan_list_extends [OF sl1 "1.prems"(2) we]
      show ?thesis
      proof (cases c)
        case False
        with True sl1 sl2 show ?thesis
          by (simp add: scan_words.simps [of exc x w st] scan_words.simps [of exc' x w st]
              scan_word_eq)
      next
        case c: True
        from e "1.prems"(3) have "D \<subseteq> members (fst s1)"
          by (auto simp: extends_def)
        with True sl1 c "1.prems"(1) extends_good [OF e]
        have "scan_words exc x (w + 1) s1 = scan_words exc' x (w + 1) s1"
          by (intro "1.IH" [of "(c, s1)" c s1]) (simp_all add: scan_word_eq)
        with True sl1 sl2 c show ?thesis
          by (simp add: scan_words.simps [of exc x w st] scan_words.simps [of exc' x w st]
              scan_word_eq)
      qed
    qed
  qed
qed

lemma ec_while_agree:
  assumes "agree_outside D exc exc'" and "good st" and "D \<subseteq> members (fst st)"
  shows "ec_while omega exc qs st = ec_while omega exc' qs st"
  using assms
proof (induction omega exc qs st rule: ec_while.induct)
  case (1 omega exc qs st)
  from "1.prems"(1) have we: "bs_wf exc"
    by (simp add: agree_outside_def)
  let ?x = "snd st ! qs"
  note a = add_subset_agree [OF "1.prems", of "omega XOR ?x"]
  note unfold = ec_while.simps [of omega exc qs st] ec_while.simps [of omega exc' qs st]
  show ?case
  proof (cases "qs < length (snd st)")
    case False
    then show ?thesis
      by (simp add: unfold)
  next
    case True
    show ?thesis
    proof (cases "add_subset exc (omega XOR ?x) st")
      case None
      moreover from None a have "add_subset exc' (omega XOR ?x) st = None"
        by simp
      ultimately show ?thesis
        using True by (simp add: unfold)
    next
      case (Some r)
      obtain c s1 where r: "r = (c, s1)"
        by (cases r)
      from Some r a have a1: "add_subset exc (omega XOR ?x) st = Some (c, s1)"
        and a2: "add_subset exc' (omega XOR ?x) st = Some (c, s1)"
        by simp_all
      note g = add_subset_good [OF a1 "1.prems"(2) we]
      from g(2) "1.prems"(3) have D1: "D \<subseteq> members (fst s1)"
        by blast
      note sw = scan_words_agree [OF "1.prems"(1) g(1) D1, of ?x 0]
      show ?thesis
      proof (cases c)
        case False
        with True a1 a2 show ?thesis
          by (simp add: unfold)
      next
        case c: True
        show ?thesis
        proof (cases "scan_words exc ?x 0 s1")
          case None
          moreover from None sw have "scan_words exc' ?x 0 s1 = None"
            by simp
          ultimately show ?thesis
            using True a1 a2 c by (simp add: unfold)
        next
          case (Some r')
          obtain c' s2 where r': "r' = (c', s2)"
            by (cases r')
          from Some r' sw have w1: "scan_words exc ?x 0 s1 = Some (c', s2)"
            and w2: "scan_words exc' ?x 0 s1 = Some (c', s2)"
            by simp_all
          note e2 = scan_words_extends [OF w1 g(1) we]
          from e2 D1 have D2: "D \<subseteq> members (fst s2)"
            by (auto simp: extends_def)
          show ?thesis
          proof (cases c')
            case False
            with True a1 a2 c w1 w2 show ?thesis
              by (simp add: unfold)
          next
            case c': True
            have "ec_while omega exc (qs + 1) s2 = ec_while omega exc' (qs + 1) s2"
              using True a1 c w1 c' "1.prems"(1) extends_good [OF e2] D2
              by (intro "1.IH" [of ?x "omega XOR ?x" "(c, s1)" c s1 "(c', s2)" c' s2]) simp_all
            with True a1 a2 c w1 w2 c' show ?thesis
              by (simp add: unfold)
          qed
        qed
      qed
    qed
  qed
qed

lemma extend_closure_agree:
  assumes "agree_outside (members included) exc exc'" and "bs_wf included"
  shows "extend_closure omega included extension exc = extend_closure omega included extension exc'"
proof (cases "extension < 128")
  case False
  with assms(2) have "bs_set included extension = None"
    by (simp add: bs_set_wf(1))
  then show ?thesis
    by (simp add: extend_closure_def)
next
  case True
  from extend_closure_start [OF assms(2) True, of omega exc]
    extend_closure_start [OF assms(2) True, of omega exc']
  obtain cl0 where m0: "members cl0 = insert extension (members included)"
    and g: "good (cl0, [extension])"
    and e: "extend_closure omega included extension exc =
               map_option (\<lambda>r. (fst r, fst (snd r))) (ec_while omega exc 0 (cl0, [extension]))"
      "extend_closure omega included extension exc' =
               map_option (\<lambda>r. (fst r, fst (snd r))) (ec_while omega exc' 0 (cl0, [extension]))"
    by auto
  from m0 have "members included \<subseteq> members (fst (cl0, [extension]))"
    by auto
  from ec_while_agree [OF assms(1) g this] e show ?thesis
    by simp
qed

section \<open>The ground sets of the driver\<close>

lemma driver_omega:
  fixes n :: nat
  assumes "1 \<le> n" and "n \<le> MAX_N"
  shows "(push_bit n 1 - 1 :: uint32_t) = mask n"
    and "(push_bit n 1 - 1 :: uint32_t) < 128"
    and "drop_bit 1 ((push_bit n 1 - 1 :: uint32_t) + 1) = (2 ^ (n - 1) :: uint32_t)"
    and "(2 ^ (n - 1) :: uint32_t) \<noteq> 0"
proof -
  show "(push_bit n 1 - 1 :: uint32_t) = mask n"
    by (simp add: mask_eq_exp_minus_1)
  from assms have "n \<in> {1, 2, 3, 4, 5, 6, 7}"
    by (auto simp: MAX_N_def)
  then have c: "n = 1 \<or> n = 2 \<or> n = 3 \<or> n = 4 \<or> n = 5 \<or> n = 6 \<or> n = 7"
    by simp
  from c show "(push_bit n 1 - 1 :: uint32_t) < 128"
    by (elim disjE) simp_all
  from c show "drop_bit 1 ((push_bit n 1 - 1 :: uint32_t) + 1) = (2 ^ (n - 1) :: uint32_t)"
    by (elim disjE) simp_all
  from c show "(2 ^ (n - 1) :: uint32_t) \<noteq> 0"
    by (elim disjE) simp_all
qed

lemma not_bit_of_less:
  fixes w :: uint32_t
  assumes "w < 2 ^ k"
  shows "\<not> bit w k"
proof -
  from assms have "w AND mask k = w"
    by (rule less_mask_eq)
  then have "take_bit k w = w"
    by (simp only: take_bit_eq_mask)
  then have "bit w k \<longleftrightarrow> bit (take_bit k w) k"
    by simp
  then show ?thesis
    by (simp add: bit_take_bit_iff)
qed

text \<open>
  For \<open>omega = 2 ^ n - 1\<close> no index below the midpoint is decided at the top level: it is
  not in the base family, and it is neither a smaller index nor the complement of one.
\<close>

lemma top_level_undecided:
  fixes n :: nat and m :: uint32_t
  assumes "1 \<le> n" and "n \<le> MAX_N" and "1 \<le> unat m" and "m < 2 ^ (n - 1)"
  shows "m \<notin> {0, mask n}" and "m \<notin> marks (mask n) (unat m - 1)"
proof -
  from assms(1,2) have n: "n - 1 < 32" "n - 1 < n" "n < 32"
    by (simp_all add: MAX_N_def)
  have bm: "\<not> bit m (n - 1)"
    using assms(4) by (rule not_bit_of_less)
  have bo: "bit (mask n :: uint32_t) (n - 1)"
    using n by (simp add: bit_mask_iff)
  from assms(3) have "m \<noteq> 0"
    by auto
  moreover from bm bo have "m \<noteq> mask n"
    by auto
  ultimately show "m \<notin> {0, mask n}"
    by simp
  show "m \<notin> marks (mask n) (unat m - 1)"
  proof
    assume "m \<in> marks (mask n) (unat m - 1)"
    then obtain j where j: "1 \<le> j" "j \<le> unat m - 1"
      and c: "m = of_nat j \<or> m = mask n XOR of_nat j"
      by (auto simp: marks_def)
    from j have jm: "j < unat m"
      by simp
    also have "unat m < 2 ^ 32"
      using unsigned_less [of m, where 'a = nat] by simp
    finally have uj: "unat (of_nat j :: uint32_t) = j"
      by (simp add: unat_of_nat)
    with jm have lt: "(of_nat j :: uint32_t) < m"
      by (simp add: word_less_nat_alt)
    with assms(4) have "(of_nat j :: uint32_t) < 2 ^ (n - 1)"
      by simp
    then have bj: "\<not> bit (of_nat j :: uint32_t) (n - 1)"
      by (rule not_bit_of_less)
    from c show False
    proof
      assume "m = of_nat j"
      with lt show False
        by simp
    next
      assume "m = mask n XOR of_nat j"
      then have "bit m (n - 1) \<longleftrightarrow> bit (mask n XOR of_nat j :: uint32_t) (n - 1)"
        by simp
      with bm bo bj show False
        by (simp add: bit_xor_iff)
    qed
  qed
qed


section \<open>The parallel split and the serial run\<close>

lemma extend_closure_complement:
  assumes "extend_closure omega included extension excluded = Some (True, cl)"
    and "bs_wf included" and "bs_wf excluded"
  shows "omega XOR extension \<in> members cl"
proof -
  from extend_closure_queue [OF assms(1-3)] obtain q where
    c: "closed_upto omega (cl, q) (length q)" and h: "hd q = extension" and ne: "q \<noteq> []"
    by blast
  from hd_in_set [OF ne] h have "extension \<in> set q"
    by simp
  with c show ?thesis
    by (auto simp: closed_upto_def)
qed

lemma inner_for_agree:
  fixes omega :: uint32_t
  assumes "bs_wf included" and "omega < 128"
    and "agree_outside (members included) exc exc'"
    and "unat (drop_bit 1 (omega + 1) :: uint32_t) - unat m \<le> k"
  shows "inner_for omega m included exc count = inner_for omega m included exc' count"
  using assms
proof (induction k arbitrary: m included exc exc' count)
  case 0
  then have "\<not> m < drop_bit 1 (omega + 1)"
    by (simp add: word_less_nat_alt)
  then show ?case
    by (simp add: inner_for_done)
next
  case (Suc k)
  from Suc.prems(3) have we: "bs_wf exc" "bs_wf exc'"
    and ag: "members exc - members included = members exc' - members included"
    by (simp_all add: agree_outside_def)
  show ?case
  proof (cases "m < drop_bit 1 (omega + 1)")
    case False
    then show ?thesis
      by (simp add: inner_for_done)
  next
    case True
    then have "unat (m + 1) = Suc (unat m)"
      by (rule unat_succ)
    with Suc.prems(4) have k: "unat (drop_bit 1 (omega + 1) :: uint32_t) - unat (m + 1) \<le> k"
      by simp
    note m128 = below_limit(1) [OF Suc.prems(2) True]
    note u1 = inner_for_unfold [OF Suc.prems(1) we(1) Suc.prems(2) True, of count]
    note u2 = inner_for_unfold [OF Suc.prems(1) we(2) Suc.prems(2) True, of count]
    have dec: "m \<in> members included \<or> m \<in> members exc
        \<longleftrightarrow> m \<in> members included \<or> m \<in> members exc'"
      using ag by blast
    show ?thesis
    proof (cases "m \<in> members included \<or> m \<in> members exc")
      case d: True
      with dec have "m \<in> members included \<or> m \<in> members exc'"
        by simp
      with d Suc.IH [OF Suc.prems(1,2,3) k] show ?thesis
        by (simp only: u1 u2 if_True)
    next
      case d: False
      with dec have d': "\<not> (m \<in> members included \<or> m \<in> members exc')"
        by simp
      note ea = extend_closure_agree [OF Suc.prems(3,1), of omega m]
      from exclude_commit_Some [OF we(1) Suc.prems(2) m128] obtain e where
        e: "exclude_commit omega exc m = Some e" "bs_wf e"
          "members e = insert (omega XOR m) (insert m (members exc))"
        by blast
      from exclude_commit_Some [OF we(2) Suc.prems(2) m128] obtain e' where
        e': "exclude_commit omega exc' m = Some e'" "bs_wf e'"
          "members e' = insert (omega XOR m) (insert m (members exc'))"
        by blast
      have "agree_outside (members included) e e'"
        using e e' ag by (auto simp: agree_outside_def)
      note cont = Suc.IH [OF Suc.prems(1,2) this k]
      show ?thesis
      proof (cases "extend_closure omega included m exc")
        case None
        moreover from None ea have "extend_closure omega included m exc' = None"
          by simp
        ultimately show ?thesis
          using d d' by (simp add: u1 u2)
      next
        case (Some r)
        obtain b cl where r: "r = (b, cl)"
          by (cases r)
        from Some r ea have x1: "extend_closure omega included m exc = Some (b, cl)"
          and x2: "extend_closure omega included m exc' = Some (b, cl)"
          by simp_all
        note w = extend_closure_wf [OF x1 Suc.prems(1) we(1)]
        from Suc.prems(3) w(2) have "agree_outside (members cl) exc exc'"
          by (rule agree_outside_mono)
        note sub = Suc.IH [OF w(1) Suc.prems(2) this k, of 1]
        show ?thesis
        proof (cases b)
          case False
          with d d' x1 x2 e(1) e'(1) cont [of count] show ?thesis
            by (simp add: u1 u2)
        next
          case True
          show ?thesis
          proof (cases "inner_for omega (m + 1) cl exc 1")
            case None
            moreover from None sub have "inner_for omega (m + 1) cl exc' 1 = None"
              by simp
            ultimately show ?thesis
              using d d' x1 x2 True by (simp add: u1 u2)
          next
            case (Some sb)
            moreover from Some sub have "inner_for omega (m + 1) cl exc' 1 = Some sb"
              by simp
            ultimately show ?thesis
              using d d' x1 x2 True e(1) e'(1) cont [of "count + sb"] by (simp add: u1 u2)
          qed
        qed
      qed
    qed
  qed
qed

lemma inner_for_shift:
  fixes omega :: uint32_t
  assumes "bs_wf included" and "bs_wf excluded" and "omega < 128"
    and "unat (drop_bit 1 (omega + 1) :: uint32_t) - unat m \<le> k"
  shows "inner_for omega m included excluded (count + d) =
           map_option (\<lambda>c. c + d) (inner_for omega m included excluded count)"
  using assms
proof (induction k arbitrary: m included excluded count)
  case 0
  then have "\<not> m < drop_bit 1 (omega + 1)"
    by (simp add: word_less_nat_alt)
  then show ?case
    by (simp add: inner_for_done)
next
  case (Suc k)
  show ?case
  proof (cases "m < drop_bit 1 (omega + 1)")
    case False
    then show ?thesis
      by (simp add: inner_for_done)
  next
    case True
    then have "unat (m + 1) = Suc (unat m)"
      by (rule unat_succ)
    with Suc.prems(4) have k: "unat (drop_bit 1 (omega + 1) :: uint32_t) - unat (m + 1) \<le> k"
      by simp
    note m128 = below_limit(1) [OF Suc.prems(3) True]
    note u1 = inner_for_unfold [OF Suc.prems(1,2,3) True, of "count + d"]
    note u2 = inner_for_unfold [OF Suc.prems(1,2,3) True, of count]
    from exclude_commit_Some [OF Suc.prems(2,3) m128] obtain e where
      e: "exclude_commit omega excluded m = Some e" "bs_wf e"
      by blast
    note cont = Suc.IH [OF Suc.prems(1) e(2) Suc.prems(3) k]
    show ?thesis
    proof (cases "m \<in> members included \<or> m \<in> members excluded")
      case True
      with Suc.IH [OF Suc.prems(1,2,3) k, of count] show ?thesis
        by (simp only: u1 u2 if_True)
    next
      case dec: False
      show ?thesis
      proof (cases "extend_closure omega included m excluded")
        case None
        with dec show ?thesis
          by (simp add: u1 u2)
      next
        case (Some r)
        obtain b cl where r: "r = (b, cl)"
          by (cases r)
        show ?thesis
        proof (cases b)
          case False
          with dec Some r e(1) cont [of count] show ?thesis
            by (simp add: u1 u2)
        next
          case True
          show ?thesis
          proof (cases "inner_for omega (m + 1) cl excluded 1")
            case None
            with dec Some r True show ?thesis
              by (simp add: u1 u2)
          next
            case sb: (Some sb)
            have "count + d + sb = count + sb + d"
              by (simp add: add.assoc add.commute [of d sb])
            with cont [of "count + sb"]
            have "inner_for omega (m + 1) included e (count + d + sb) =
                map_option (\<lambda>c. c + d) (inner_for omega (m + 1) included e (count + sb))"
              by (simp only:)
            with dec Some r True sb e(1) show ?thesis
              by (simp add: u1 u2)
          qed
        qed
      qed
    qed
  qed
qed


lemma driver_for_done:
  assumes "\<not> m < limit"
  shows "driver_for omega limit m included arr tot = Some tot"
  using assms by (subst driver_for.simps) simp

lemma driver_for_unfold:
  assumes "m < limit" and "load arr (m - 1) = Some ex" and "bs_wf included" and "bs_wf ex"
    and "omega < 128" and "m < 128" and "m \<notin> members included" and "m \<notin> members ex"
    and "exclude_commit omega ex m = Some e"
  shows "driver_for omega limit m included arr tot =
     (case extend_closure omega included m ex of
        None \<Rightarrow> None
      | Some r \<Rightarrow>
          if fst r then
            (case inner omega (m + 1) (snd r) e of
               None \<Rightarrow> None
             | Some sub \<Rightarrow> driver_for omega limit (m + 1) included arr (tot + sub))
          else driver_for omega limit (m + 1) included arr tot)"
proof -
  from assms(9) obtain e1 where "bs_set ex m = Some e1" "bs_set e1 (omega XOR m) = Some e"
    by (auto simp: exclude_commit_def split: bind_splits)
  with assms(1,2,6,7,8) show ?thesis
    by (subst driver_for.simps)
      (auto simp: bs_get_wf [OF assms(3)] bs_get_wf [OF assms(4)]
        split: option.splits bind_splits)
qed

lemma driver_for_serial:
  fixes omega limit m :: uint32_t
  assumes inc: "bs_wf included" and om: "omega < 128"
    and lim: "limit = drop_bit 1 (omega + 1)"
    and len: "length arr = unat limit" and fil: "filled omega arr (unat limit)"
    and und: "\<And>m. 1 \<le> unat m \<Longrightarrow> m < limit
                \<Longrightarrow> m \<notin> members included \<and> m \<notin> marks omega (unat m - 1)"
    and m1: "1 \<le> unat m" and k: "unat limit - unat m \<le> k"
  shows "driver_for omega limit m included arr tot =
           inner_for omega m included (arr ! (unat m - 1)) tot"
  using m1 k
proof (induction k arbitrary: m tot)
  case 0
  then have "\<not> m < limit"
    by (simp add: word_less_nat_alt)
  then show ?case
    by (simp add: driver_for_done inner_for_done lim)
next
  case (Suc k)
  show ?case
  proof (cases "m < limit")
    case False
    then show ?thesis
      by (simp add: driver_for_done inner_for_done lim)
  next
    case True
    then have lt: "unat m < unat limit"
      by (simp add: word_less_nat_alt)
    have l64: "unat limit \<le> 64"
      unfolding lim using om by (rule limit_le_64)
    have suc: "unat (m + 1) = Suc (unat m)"
      using True by (rule unat_succ)
    from Suc.prems(1) have pred: "unat (m - 1) = unat m - 1"
      by (simp add: unat_minus_one unat_eq_0 [symmetric] del: unat_eq_0)
    let ?ex = "arr ! (unat m - 1)"
    have ld: "load arr (m - 1) = Some ?ex"
      using lt len by (simp add: load_def pred)
    from lt have "unat m - 1 < unat limit"
      by simp
    from filled_members [OF fil this om l64]
    have wex: "bs_wf ?ex" and mex: "members ?ex = marks omega (unat m - 1)"
      by simp_all
    have m128: "m < 128"
      using lt l64 by (simp add: word_less_nat_alt)
    from und [OF Suc.prems(1) True] mex
    have nd: "m \<notin> members included" "m \<notin> members ?ex"
      by simp_all
    from Suc.prems(1) have sj: "Suc (unat m - 1) = unat m"
      by simp
    from fil have "\<forall>j. Suc j < unat limit
        \<longrightarrow> exclude_commit omega (arr ! j) (of_nat (Suc j)) = Some (arr ! Suc j)"
      unfolding filled_def by blast
    then have "Suc (unat m - 1) < unat limit
        \<longrightarrow> exclude_commit omega ?ex (of_nat (Suc (unat m - 1))) = Some (arr ! Suc (unat m - 1))"
      by (rule spec)
    with lt have ec: "exclude_commit omega ?ex m = Some (arr ! unat m)"
      by (simp only: sj of_nat_unat_32)
    from exclude_commit_Some [OF wex om m128] ec
    have wm: "bs_wf (arr ! unat m)"
      and mm: "members (arr ! unat m) = insert (omega XOR m) (insert m (members ?ex))"
      by simp_all
    note ud = driver_for_unfold [OF True ld inc wex om m128 nd ec, of tot]
    note ui = inner_for_unfold [OF inc wex om True [unfolded lim], of tot]
    have IH: "driver_for omega limit (m + 1) included arr t =
           inner_for omega (m + 1) included (arr ! unat m) t" for t
      using Suc.IH [of "m + 1" t] Suc.prems(2) suc by simp
    show ?thesis
    proof (cases "extend_closure omega included m ?ex")
      case None
      with nd show ?thesis
        unfolding ud ui by simp
    next
      case (Some r)
      obtain b cl where r: "r = (b, cl)"
        by (cases r)
      show ?thesis
      proof (cases b)
        case False
        with Some r nd ec IH [of tot] show ?thesis
          unfolding ud ui by simp
      next
        case True
        with Some r have x: "extend_closure omega included m ?ex = Some (True, cl)"
          by simp
        note w = extend_closure_wf [OF x inc wex]
        note c = extend_closure_complement [OF x inc wex]
        have "agree_outside (members cl) (arr ! unat m) ?ex"
          using wm wex mm w(3) c by (auto simp: agree_outside_def)
        with w(1) om
        have ag: "inner_for omega (m + 1) cl (arr ! unat m) 1 = inner_for omega (m + 1) cl ?ex 1"
          by (rule inner_for_agree) (rule order_refl)
        show ?thesis
        proof (cases "inner_for omega (m + 1) cl ?ex 1")
          case None
          with x nd ec ag show ?thesis
            unfolding ud ui inner_def by simp
        next
          case sb: (Some sb)
          with x nd ec ag IH [of "tot + sb"] show ?thesis
            unfolding ud ui inner_def by simp
        qed
      qed
    qed
  qed
qed


text \<open>
  C2: for every \<open>n\<close> from 1 to \<^verbatim>\<open>MAX_N\<close>, with \<open>omega = 2 ^ n - 1\<close>, the total of the
  driver's top-level split (the sum over \<open>m\<close> of the counts of the subtrees entered with
  \<^verbatim>\<open>root_excluded[m - 1]\<close> extended by \<open>m\<close> and its complement, plus 1) is the count that
  the single serial call \<open>inner omega 1\<close> on the base family and the empty \<open>excluded\<close>
  returns; it is the total of the line printed for \<open>n\<close>.
\<close>

theorem parallel_equals_serial:
  fixes n :: nat
  assumes "1 \<le> n" and "n \<le> MAX_N"
  shows "\<exists>included tot.
      base_included (push_bit n 1 - 1) = Some included
      \<and> driver_total (push_bit n 1 - 1) = Some tot
      \<and> inner (push_bit n 1 - 1) 1 included bs_clear = Some tot
      \<and> main_iteration (of_nat n) = Some (print_line (of_nat n) tot)"
proof -
  define omega :: uint32_t where "omega = push_bit n 1 - 1"
  define limit :: uint32_t where "limit = drop_bit 1 (omega + 1)"
  note o = driver_omega [OF assms, folded omega_def]
  have lim: "limit = 2 ^ (n - 1)"
    by (simp only: limit_def o(3))
  have l64: "unat limit \<le> 64"
    unfolding limit_def using o(2) by (rule limit_le_64)
  from o(4) lim have l0: "limit \<noteq> 0"
    by simp
  then have lpos: "0 < unat limit"
    by (simp add: unat_gt_0)
  from base_included_total [OF o(2)] obtain included where
    b: "base_included omega = Some included"
    by blast
  note bm = base_included_members [OF b]
  from root_excluded_filled [OF o(2) l64 l0] obtain arr where
    arr: "root_excluded omega limit = Some arr" "length arr = unat limit"
      "filled omega arr (unat limit)"
    by blast
  from arr(3) lpos have a0: "arr ! 0 = bs_clear"
    by (simp add: filled_def)
  have und: "m \<notin> members included \<and> m \<notin> marks omega (unat m - 1)"
    if "1 \<le> unat m" and "m < limit" for m
    using top_level_undecided [OF assms that(1) that(2) [unfolded lim]]
    by (simp add: bm(2) o(1))
  have "driver_for omega limit 1 included arr 0 =
      inner_for omega 1 included (arr ! (unat (1 :: uint32_t) - 1)) 0"
    using bm(1) o(2) limit_def arr(2,3) und
    by (rule driver_for_serial [where k = "unat limit"]) simp_all
  then have d: "driver_for omega limit 1 included arr 0 = inner_for omega 1 included bs_clear 0"
    by (simp add: a0)
  from inner_total [OF bm(1) bs_clear_wf o(2), of 1] obtain c where
    c: "inner omega 1 included bs_clear = Some c"
    by blast
  have "inner_for omega 1 included bs_clear (0 + 1) =
      map_option (\<lambda>c. c + 1) (inner_for omega 1 included bs_clear 0)"
    using bm(1) bs_clear_wf o(2) by (rule inner_for_shift) (rule order_refl)
  with c have "map_option (\<lambda>c. c + 1) (inner_for omega 1 included bs_clear 0) = Some c"
    by (simp add: inner_def)
  then obtain t where t: "inner_for omega 1 included bs_clear 0 = Some t" and ct: "c = t + 1"
    by (cases "inner_for omega 1 included bs_clear 0") auto
  have dt: "driver_total omega = Some c"
    unfolding driver_total_def limit_def [symmetric]
    using b arr(1) d t ct by simp
  have un: "unat (of_nat n :: uint32_t) = n"
    using assms(2) by (intro unat_of_nat_small(1)) (simp add: MAX_N_def)
  with assms(1) have "(of_nat n :: uint32_t) > 0"
    by (simp add: word_less_nat_alt)
  with un have om': "(if (of_nat n :: uint32_t) > 0
      then push_bit (unat (of_nat n :: uint32_t)) 1 - 1 else 0) = omega"
    by (simp add: omega_def)
  have "main_iteration (of_nat n) = Some (print_line (of_nat n) c)"
    unfolding main_iteration_def Let_def om' limit_def [symmetric]
    using l0 dt by simp
  with b dt c show ?thesis
    unfolding omega_def by blast
qed

theorem parallel_equals_serial_witness:
  "(1 :: nat) \<le> 2 \<and> 2 \<le> MAX_N
   \<and> (\<exists>included tot.
      base_included (push_bit 2 1 - 1) = Some included
      \<and> driver_total (push_bit 2 1 - 1) = Some tot
      \<and> inner (push_bit 2 1 - 1) 1 included bs_clear = Some tot
      \<and> main_iteration (of_nat 2) = Some (print_line (of_nat 2) tot))"
proof -
  have h: "(1 :: nat) \<le> 2" "2 \<le> MAX_N"
    by (simp_all add: MAX_N_def)
  from parallel_equals_serial [OF h] h show ?thesis
    by blast
qed

section \<open>The search states of the enumeration\<close>

lemma xor_xor_same: "omega XOR (omega XOR (m :: uint32_t)) = m"
  by (simp add: xor.assoc [symmetric])

lemma inner_step_inv:
  assumes "inner_step omega s s'" and "search_inv omega D s"
  shows "search_inv omega D s'"
  using assms
proof (cases rule: inner_step.cases)
  case (step_skip m included is_in excluded)
  with assms(2) show ?thesis
    by (simp add: search_inv_def)
next
  case (step_in m included excluded closure)
  from assms(2) step_in(1) have wf: "bs_wf included" "bs_wf excluded"
    and b: "0 \<in> members included" "omega \<in> members included"
    and c: "dynkin_closed omega (members included)"
    and d: "members included \<inter> members excluded \<subseteq> D"
    by (simp_all add: search_inv_def)
  note e = step_in(6)
  note w = extend_closure_wf [OF e wf]
  from step_in(5) have "m \<notin> members excluded"
    by (simp add: members_def)
  with extend_closure_excluded [OF e wf] d
  have "members closure \<inter> members excluded \<subseteq> D"
    by blast
  with w(1,2) wf(2) b extend_closure_closed [OF e wf c] step_in(2) show ?thesis
    by (auto simp: search_inv_def)
next
  case (step_out m included excluded r excluded' excluded'')
  from assms(2) step_out(1) have wf: "bs_wf included" "bs_wf excluded"
    and b: "0 \<in> members included" "omega \<in> members included"
    and c: "dynkin_closed omega (members included)"
    and d: "members included \<inter> members excluded \<subseteq> D"
    by (simp_all add: search_inv_def)
  from bs_set_wf(2) [OF wf(2) step_out(7)]
  have 1: "bs_wf excluded'" "members excluded' = insert m (members excluded)"
    by simp_all
  from bs_set_wf(2) [OF 1(1) step_out(8)] 1(2)
  have 2: "bs_wf excluded''"
    "members excluded'' = insert (omega XOR m) (insert m (members excluded))"
    by simp_all
  from step_out(4) have nm: "m \<notin> members included"
    by (simp add: members_def)
  have "omega XOR m \<notin> members included"
  proof
    assume "omega XOR m \<in> members included"
    moreover from c have "\<forall>s\<in>members included. omega XOR s \<in> members included"
      by (simp add: dynkin_closed_def)
    ultimately have "omega XOR (omega XOR m) \<in> members included"
      by blast
    with nm show False
      by (simp only: xor_xor_same)
  qed
  with nm d 2(2) have "members included \<inter> members excluded'' \<subseteq> D"
    by auto
  with wf(1) 2(1) b c step_out(2) show ?thesis
    by (simp add: search_inv_def)
qed

lemma base_inv:
  assumes "base_included omega = Some included"
  shows "search_inv omega {} (m, included, bs_clear)" and "omega < 128"
proof -
  note b = base_included_members [OF assms]
  from b show "search_inv omega {} (m, included, bs_clear)"
    by (simp add: search_inv_def base_closed)
  from b show "omega < 128"
    by (intro members_bound [of included]) simp_all
qed

lemma marks_iff:
  "z \<in> marks omega k
     \<longleftrightarrow> (\<exists>j. 1 \<le> j \<and> j \<le> k \<and> (z = (of_nat j :: uint32_t) \<or> z = omega XOR of_nat j))"
  by (auto simp: marks_def)

lemma marks_not_base:
  fixes omega m :: uint32_t
  assumes "omega < 128" and "m < drop_bit 1 (omega + 1)"
  shows "0 \<notin> marks omega (unat m - 1)" and "omega \<notin> marks omega (unat m - 1)"
proof -
  note lt = below_limit [OF assms]
  have j: "(of_nat j :: uint32_t) \<noteq> 0 \<and> (of_nat j :: uint32_t) \<noteq> omega"
    if "1 \<le> j" and "j \<le> unat m - 1" for j
  proof -
    from that lt(1) have "j < 128"
      by (simp add: word_less_nat_alt)
    then have u: "unat (of_nat j :: uint32_t) = j"
      by (rule unat_of_nat_small(1))
    from that lt(2) have "j \<noteq> 0" "j \<noteq> unat omega"
      by simp_all
    with u show ?thesis
      by (metis unat_0)
  qed
  show "0 \<notin> marks omega (unat m - 1)"
  proof
    assume "0 \<in> marks omega (unat m - 1)"
    then obtain j where jj: "1 \<le> j" "j \<le> unat m - 1"
      and c: "0 = (of_nat j :: uint32_t) \<or> 0 = omega XOR (of_nat j :: uint32_t)"
      unfolding marks_iff by blast
    from c have "(of_nat j :: uint32_t) = 0 \<or> (of_nat j :: uint32_t) = omega"
      by (metis xor_self_eq xor_xor_same)
    with j [OF jj] show False
      by blast
  qed
  show "omega \<notin> marks omega (unat m - 1)"
  proof
    assume "omega \<in> marks omega (unat m - 1)"
    then obtain j where jj: "1 \<le> j" "j \<le> unat m - 1"
      and c: "omega = (of_nat j :: uint32_t) \<or> omega = omega XOR (of_nat j :: uint32_t)"
      unfolding marks_iff by blast
    from c show False
    proof
      assume "omega = of_nat j"
      with j [OF jj] show False
        by simp
    next
      assume "omega = omega XOR of_nat j"
      then have "omega XOR omega = omega XOR (omega XOR of_nat j)"
        by simp
      then have "(of_nat j :: uint32_t) = 0"
        by (simp only: xor_xor_same xor_self_eq)
      with j [OF jj] show False
        by simp
    qed
  qed
qed


lemma dispatch_inv:
  assumes b: "base_included omega = Some included"
    and r: "root_excluded omega (drop_bit 1 (omega + 1)) = Some arr"
    and m: "1 \<le> m" "m < drop_bit 1 (omega + 1)"
    and l: "load arr (m - 1) = Some ex_here"
    and g: "bs_get included m = Some False" "bs_get ex_here m = Some False"
    and e: "extend_closure omega included m ex_here = Some (True, closure)"
    and s: "bs_set (bs_copy ex_here) m = Some e'" "bs_set e' (omega XOR m) = Some new_exc"
  shows "search_inv omega {m, omega XOR m} (m', closure, new_exc)"
proof -
  note bm = base_included_members [OF b]
  note om = base_inv(2) [OF b]
  let ?limit = "drop_bit 1 (omega + 1) :: uint32_t"
  have l64: "unat ?limit \<le> 64"
    using om by (rule limit_le_64)
  from m(2) have l0: "?limit \<noteq> 0"
    by auto
  from root_excluded_filled [OF om l64 l0] r
  have len: "length arr = unat ?limit" and fil: "filled omega arr (unat ?limit)"
    by simp_all
  from m(1) have m1: "1 \<le> unat m"
    by (simp add: word_le_nat_alt)
  then have pred: "unat (m - 1) = unat m - 1"
    by (simp add: unat_minus_one unat_eq_0 [symmetric] del: unat_eq_0)
  from m(2) have lt: "unat m < unat ?limit"
    by (simp add: word_less_nat_alt)
  from l have ex: "ex_here = arr ! (unat m - 1)"
    by (auto simp: load_def pred split: if_splits)
  from lt have "unat m - 1 < unat ?limit"
    by simp
  from filled_members [OF fil this om l64]
  have wex: "bs_wf ex_here" and mex: "members ex_here = marks omega (unat m - 1)"
    by (simp_all add: ex)
  from s(1) have s1: "bs_set ex_here m = Some e'"
    by simp
  from bs_set_wf(2) [OF wex s1]
  have 1: "bs_wf e'" "members e' = insert m (members ex_here)"
    by simp_all
  from bs_set_wf(2) [OF 1(1) s(2)] 1(2)
  have 2: "bs_wf new_exc" "members new_exc = insert (omega XOR m) (insert m (members ex_here))"
    by simp_all
  note w = extend_closure_wf [OF e bm(1) wex]
  have c: "dynkin_closed omega (members closure)"
    using e bm(1) wex by (rule extend_closure_closed) (simp add: bm(2) base_closed)
  from marks_not_base [OF om m(2)] have "members included \<inter> members ex_here = {}"
    by (simp add: bm(2) mex)
  moreover from g(2) have "m \<notin> members ex_here"
    by (simp add: members_def)
  ultimately have "members closure \<inter> members ex_here = {}"
    using extend_closure_excluded [OF e bm(1) wex] by blast
  with 2(2) have "members closure \<inter> members new_exc \<subseteq> {m, omega XOR m}"
    by auto
  with w(1,2) 2(1) c bm(2) show ?thesis
    by (auto simp: search_inv_def)
qed

lemma search_state_inv:
  assumes "search_state omega root s"
  shows "search_inv omega (twice_marked omega root) s"
  using assms
proof (induction rule: search_state.induct)
  case (serial included)
  then show ?case
    by (simp add: twice_marked_def base_inv(1))
next
  case (dispatch included arr m ex_here closure e new_exc)
  then show ?case
    by (simp add: twice_marked_def dispatch_inv)
next
  case (step root s s')
  from step(2) step(3) show ?case
    by (rule inner_step_inv)
qed

section \<open>The invariants of the search states\<close>

text \<open>
  What holds in every search state: \<open>included\<close> contains the empty set and \<open>omega\<close> and
  is closed under complement and under union of disjoint members.  In the states of the
  serial run no subset is marked both in \<open>included\<close> and in \<open>excluded\<close>; in the states
  that the driver's split reaches from its top-level index \<open>m\<close>, the only subsets marked
  in both are \<open>m\<close> and \<open>omega XOR m\<close>.
\<close>

lemma search_state_invariant:
  assumes "search_state omega root (m, included, excluded)"
  shows "0 \<in> members included \<and> omega \<in> members included
     \<and> dynkin_closed omega (members included)
     \<and> members included \<inter> members excluded \<subseteq> twice_marked omega root"
  using search_state_inv [OF assms] by (simp add: search_inv_def)

lemma search_state_invariant_instance:
  "search_state 3 (Some 1) (1 + 1, \<lparr>bits = [15, 0]\<rparr>, \<lparr>bits = [6, 0]\<rparr>)
   \<and> 0 \<in> members \<lparr>bits = [15, 0]\<rparr> \<and> 3 \<in> members \<lparr>bits = [15, 0]\<rparr>
   \<and> dynkin_closed 3 (members \<lparr>bits = [15, 0]\<rparr>)
   \<and> members \<lparr>bits = [15, 0]\<rparr> \<inter> members \<lparr>bits = [6, 0]\<rparr> \<subseteq> {1, 2}"
proof -
  have s: "search_state 3 (Some 1) (1 + 1, \<lparr>bits = [15, 0]\<rparr>, \<lparr>bits = [6, 0]\<rparr>)"
  proof (rule search_state.dispatch)
    show "base_included 3 = Some \<lparr>bits = [9, 0]\<rparr>"
      by (rule base_3)
    show "root_excluded 3 (drop_bit 1 (3 + 1)) = Some [bs_clear, \<lparr>bits = [6, 0]\<rparr>]"
      by code_simp
    show "(1 :: uint32_t) \<le> 1" and "(1 :: uint32_t) < drop_bit 1 (3 + 1)"
      by simp_all
    show "load [bs_clear, \<lparr>bits = [6, 0]\<rparr>] (1 - 1) = Some bs_clear"
      by (simp add: load_def)
    show "bs_get \<lparr>bits = [9, 0]\<rparr> 1 = Some False"
      by code_simp
    show "bs_get bs_clear 1 = Some False"
      by code_simp
    show "extend_closure 3 \<lparr>bits = [9, 0]\<rparr> 1 bs_clear = Some (True, \<lparr>bits = [15, 0]\<rparr>)"
      by code_simp
    show "bs_set (bs_copy bs_clear) 1 = Some \<lparr>bits = [2, 0]\<rparr>"
      by code_simp
    show "bs_set \<lparr>bits = [2, 0]\<rparr> (3 XOR 1) = Some \<lparr>bits = [6, 0]\<rparr>"
      by code_simp
  qed
  have t: "twice_marked 3 (Some 1) = {1, 2}"
    by (simp add: twice_marked_def)
  from search_state_invariant [OF s] s show ?thesis
    by (simp only: t)
qed

text \<open>
  C5: in every search state of the enumeration no subset is marked both in \<open>included\<close>
  and in \<open>excluded\<close>.  The recursive call of \<^verbatim>\<open>inner\<close> keeps it so: it passes on
  \<open>excluded\<close> without the subset \<open>m\<close> that the closure has just taken in.  The driver
  does not: after \<open>extend_closure\<close> has put \<open>m\<close> and \<open>omega XOR m\<close> into the closure, it
  adds both to \<^verbatim>\<open>new_exc\<close> and starts \<^verbatim>\<open>inner\<close> on the pair.  For \<open>n = 2\<close> and \<open>m = 1\<close>
  that state has \<open>included = {0, 1, 2, 3}\<close> and \<open>excluded = {1, 2}\<close>: the subset 1 is
  marked in both.
\<close>

theorem search_state_marked_twice:
  "search_state 3 (Some 1) (1 + 1, \<lparr>bits = [15, 0]\<rparr>, \<lparr>bits = [6, 0]\<rparr>)
   \<and> bs_get \<lparr>bits = [15, 0]\<rparr> 1 = Some True
   \<and> bs_get \<lparr>bits = [6, 0]\<rparr> 1 = Some True"
proof -
  have "search_state 3 (Some 1) (1 + 1, \<lparr>bits = [15, 0]\<rparr>, \<lparr>bits = [6, 0]\<rparr>)"
  proof (rule search_state.dispatch)
    show "base_included 3 = Some \<lparr>bits = [9, 0]\<rparr>"
      by (rule base_3)
    show "root_excluded 3 (drop_bit 1 (3 + 1)) = Some [bs_clear, \<lparr>bits = [6, 0]\<rparr>]"
      by code_simp
    show "(1 :: uint32_t) \<le> 1" and "(1 :: uint32_t) < drop_bit 1 (3 + 1)"
      by simp_all
    show "load [bs_clear, \<lparr>bits = [6, 0]\<rparr>] (1 - 1) = Some bs_clear"
      by (simp add: load_def)
    show "bs_get \<lparr>bits = [9, 0]\<rparr> 1 = Some False"
      by code_simp
    show "bs_get bs_clear 1 = Some False"
      by code_simp
    show "extend_closure 3 \<lparr>bits = [9, 0]\<rparr> 1 bs_clear = Some (True, \<lparr>bits = [15, 0]\<rparr>)"
      by code_simp
    show "bs_set (bs_copy bs_clear) 1 = Some \<lparr>bits = [2, 0]\<rparr>"
      by code_simp
    show "bs_set \<lparr>bits = [2, 0]\<rparr> (3 XOR 1) = Some \<lparr>bits = [6, 0]\<rparr>"
      by code_simp
  qed
  moreover have "bs_get \<lparr>bits = [15, 0]\<rparr> 1 = Some True"
    and "bs_get \<lparr>bits = [6, 0]\<rparr> 1 = Some True"
    by code_simp+
  ultimately show ?thesis
    by blast
qed

section \<open>The counts printed for small ground sets\<close>

text \<open>
  C7: for \<open>n = 0\<close> the midpoint \<^verbatim>\<open>limit\<close> is 0 and the driver prints \<^verbatim>\<open>0 1\<close> without
  enumerating; for \<open>n = 1\<close> it prints \<^verbatim>\<open>1 1\<close>.
\<close>

theorem main_iteration_0_1:
  "drop_bit 1 ((0 :: uint32_t) + 1) = (0 :: uint32_t)
   \<and> main_iteration 0 = Some (''0 1'' @ [CHR 0x0A])
   \<and> main_iteration 1 = Some (''1 1'' @ [CHR 0x0A])"
  by code_simp

text \<open>
  C3 as stated: for \<open>n = 2\<close> the driver prints \<^verbatim>\<open>2 4\<close>.  The program does not: the
  line it prints is not \<^verbatim>\<open>2 4\<close>.
\<close>

theorem main_iteration_2_not_4:
  "main_iteration 2 \<noteq> Some (''2 4'' @ [CHR 0x0A])"
  by code_simp

text \<open>
  C3 as amended: for \<open>n = 2\<close> (\<open>omega = 3\<close>) the enumeration yields the count 2, and the
  driver prints \<^verbatim>\<open>2 2\<close>.
\<close>

theorem main_iteration_2:
  "driver_total 3 = Some 2 \<and> main_iteration 2 = Some (''2 2'' @ [CHR 0x0A])"
  by code_simp

end
